theory Spec2Isabelle
  imports Complex_Main "HOL-Library.Multiset" "HOL-Library.Sublist"
begin

section \<open>Speaker-segment consolidation (Backend/diarization.py)\<close>

text \<open>
  Times are Python floats in the source; they are modelled as real numbers, so sums and
  differences are exact. A speaker identity is the string \<^verbatim>\<open>f"Speaker {n}"\<close> built from a
  number, or the sentinel \<^verbatim>\<open>"SPEAKER_UNKNOWN"\<close>; the datatype keeps the number.
\<close>

datatype speaker_id = Speaker nat | SPEAKER_UNKNOWN

text \<open>
  A raw turn of the diarization annotation: \<^verbatim>\<open>turn.start\<close>, \<^verbatim>\<open>turn.end\<close> and the number
  \<^verbatim>\<open>int(speaker.split('_')[1])\<close> of its label.
\<close>

record turn =
  turn_start :: real
  turn_end :: real
  turn_label :: nat

text \<open>
  A segment dictionary with the keys \<^verbatim>\<open>start\<close>, \<^verbatim>\<open>end\<close>, \<^verbatim>\<open>speaker\<close>, \<^verbatim>\<open>duration\<close> and,
  once the confidence loop has run, \<^verbatim>\<open>confidence\<close> (\<open>None\<close>: the key is absent).
\<close>

record segment =
  seg_start :: real
  seg_end :: real
  speaker :: speaker_id
  duration :: real
  confidence :: "real option"

text \<open>
  Python's \<^verbatim>\<open>round(x, 2)\<close>: to the nearest multiple of 1/100, a tie going to the even
  neighbour.
\<close>

definition py_round :: "real \<Rightarrow> int" where
  "py_round y =
     (let f = \<lfloor>y\<rfloor>; d = y - of_int f
      in if d < 1 / 2 then f else if 1 / 2 < d then f + 1
         else if even f then f else f + 1)"

definition round2 :: "real \<Rightarrow> real" where
  "round2 x = of_int (py_round (x * 100)) / 100"

text \<open>\<^verbatim>\<open>self.collar = 0.15\<close>, set once in the constructor.\<close>

definition collar :: real where
  "collar = 15 / 100"

text \<open>The first loop of \<^verbatim>\<open>_process_diarization_results\<close>: one raw segment per turn.\<close>

definition raw_segment :: "turn \<Rightarrow> segment" where
  "raw_segment t =
     \<lparr>seg_start = round2 (turn_start t), seg_end = round2 (turn_end t),
      speaker = Speaker (turn_label t + 1),
      duration = round2 (turn_end t - turn_start t), confidence = None\<rparr>"

text \<open>
  The test of the sweep, \<^verbatim>\<open>next_segment["speaker"] == current["speaker"] and
  next_segment["start"] - current["end"] <= self.collar\<close>: is \<open>nxt\<close> merged into \<open>cur\<close>?
\<close>

definition mergeable :: "real \<Rightarrow> segment \<Rightarrow> segment \<Rightarrow> bool" where
  "mergeable c cur nxt = (speaker nxt = speaker cur \<and> seg_start nxt - seg_end cur \<le> c)"

text \<open>
  The sweep \<^verbatim>\<open>for next_segment in sorted_segments[1:]\<close>: \<open>merged\<close> is the list
  \<^verbatim>\<open>merged_segments\<close>, \<open>cur\<close> the dictionary \<^verbatim>\<open>current\<close>. After the loop the last
  \<^verbatim>\<open>current\<close> is appended.
\<close>

fun merge_sweep :: "real \<Rightarrow> segment list \<Rightarrow> segment \<Rightarrow> segment list \<Rightarrow> segment list" where
  "merge_sweep c merged cur [] = merged @ [cur]"
| "merge_sweep c merged cur (nxt # rest) =
     (if mergeable c cur nxt
      then merge_sweep c merged
             (cur\<lparr>seg_end := seg_end nxt,
                  duration := round2 (seg_end nxt - seg_start cur)\<rparr>) rest
      else merge_sweep c (merged @ [cur]) nxt rest)"

text \<open>
  The merge pass: \<^verbatim>\<open>sorted(raw_segments, key=lambda s: s["start"])\<close> (a stable sort),
  the empty case, and the sweep. \<^verbatim>\<open>_process_in_chunks\<close> repeats the same statements.
\<close>

definition merge_pass :: "real \<Rightarrow> segment list \<Rightarrow> segment list" where
  "merge_pass c segs =
     (case sort_key seg_start segs of
        [] \<Rightarrow> []
      | s # rest \<Rightarrow> merge_sweep c [] s rest)"

text \<open>
  The confidence loop. \<^verbatim>\<open>np.random.uniform(-0.1, 0.1)\<close> is an input of the model:
  \<open>jit i\<close> is the number drawn for the \<open>i\<close>-th merged segment.
\<close>

definition base_confidence :: "real \<Rightarrow> real" where
  "base_confidence d = min (9 / 10) (max (6 / 10) (d / 10))"

definition segment_confidence :: "real \<Rightarrow> real \<Rightarrow> real" where
  "segment_confidence d j = round2 (base_confidence d + j)"

fun assign_confidence :: "(nat \<Rightarrow> real) \<Rightarrow> nat \<Rightarrow> segment list \<Rightarrow> segment list" where
  "assign_confidence jit i [] = []"
| "assign_confidence jit i (s # ss) =
     s\<lparr>confidence := Some (segment_confidence (duration s) (jit i))\<rparr>
       # assign_confidence jit (Suc i) ss"

definition process_diarization_results :: "(nat \<Rightarrow> real) \<Rightarrow> turn list \<Rightarrow> segment list" where
  "process_diarization_results jit turns =
     assign_confidence jit 0 (merge_pass collar (map raw_segment turns))"

text \<open>Consecutive pairs of a list.\<close>

fun adjacent :: "('a \<Rightarrow> 'a \<Rightarrow> bool) \<Rightarrow> 'a list \<Rightarrow> bool" where
  "adjacent P [] = True"
| "adjacent P [x] = True"
| "adjacent P (x # y # zs) = (P x y \<and> adjacent P (y # zs))"

text \<open>
  \<^verbatim>\<open>_enforce_two_speakers\<close>. \<^verbatim>\<open>unique_speakers = list(set(...))\<close>: only its length and, in the
  one-speaker branch, its single element are read, so the order of the set does not matter.
\<close>

definition unique_speakers :: "segment list \<Rightarrow> speaker_id list" where
  "unique_speakers segs = remdups (map speaker segs)"

text \<open>
  \<^verbatim>\<open>speaker_counts[speaker] = speaker_counts.get(speaker, 0) + 1\<close> on a dictionary that
  keeps its keys in insertion order.
\<close>

fun bump_count :: "speaker_id \<Rightarrow> (speaker_id \<times> nat) list \<Rightarrow> (speaker_id \<times> nat) list" where
  "bump_count k [] = [(k, 1)]"
| "bump_count k ((k', n) # kvs) =
     (if k = k' then (k', n + 1) # kvs else (k', n) # bump_count k kvs)"

definition speaker_counts :: "segment list \<Rightarrow> (speaker_id \<times> nat) list" where
  "speaker_counts segs = foldl (\<lambda>m s. bump_count (speaker s) m) [] segs"

text \<open>
  \<^verbatim>\<open>sorted(speaker_counts.items(), key=lambda x: x[1], reverse=True)[:2]\<close>: a stable sort by
  descending count, then the first two keys.
\<close>

definition top_speaker_ids :: "segment list \<Rightarrow> speaker_id list" where
  "top_speaker_ids segs =
     map fst (take 2 (sort_key (\<lambda>kv. - int (snd kv)) (speaker_counts segs)))"

text \<open>
  The loop of the one-speaker branch over the segments sorted by start: each segment gets
  \<^verbatim>\<open>current_speaker\<close>, which flips when the silence before the next segment exceeds 0.5s.
\<close>

fun split_by_gaps :: "speaker_id \<Rightarrow> speaker_id \<Rightarrow> speaker_id \<Rightarrow> segment list \<Rightarrow> segment list" where
  "split_by_gaps speaker1 speaker2 current_speaker [] = []"
| "split_by_gaps speaker1 speaker2 current_speaker [s] = [s\<lparr>speaker := current_speaker\<rparr>]"
| "split_by_gaps speaker1 speaker2 current_speaker (s # nxt # rest) =
     s\<lparr>speaker := current_speaker\<rparr>
       # split_by_gaps speaker1 speaker2
           (if 1 / 2 < seg_start nxt - seg_end s
            then (if current_speaker = speaker1 then speaker2 else speaker1)
            else current_speaker)
           (nxt # rest)"

definition enforce_two_speakers :: "segment list \<Rightarrow> segment list" where
  "enforce_two_speakers segs =
     (if segs = [] then segs
      else if length (unique_speakers segs) = 2 then segs
      else if 2 < length (unique_speakers segs) then
        (case top_speaker_ids segs of
           [] \<Rightarrow> segs
         | top0 # others \<Rightarrow>
             map (\<lambda>s. if speaker s \<notin> set (top0 # others) then s\<lparr>speaker := top0\<rparr> else s) segs)
      else
        (case unique_speakers segs of
           [speaker1] \<Rightarrow>
             split_by_gaps speaker1 (if speaker1 \<noteq> Speaker 2 then Speaker 2 else Speaker 1)
               speaker1 (sort_key seg_start segs)
         | _ \<Rightarrow> segs))"

text \<open>
  \<^verbatim>\<open>generate_speaker_statistics\<close>: \<^verbatim>\<open>speaker_times[speaker] += segment["duration"]\<close>.
\<close>

definition speaker_times :: "segment list \<Rightarrow> speaker_id \<Rightarrow> real" where
  "speaker_times segs sp = sum_list (map duration (filter (\<lambda>s. speaker s = sp) segs))"

subsection \<open>Exceptions\<close>

text \<open>
  An exception is a value carrying \<^verbatim>\<open>str(e)\<close>. \<^verbatim>\<open>TimeoutError\<close> is the class that app.py
  declares as a subclass of \<^verbatim>\<open>Exception\<close>; every other exception is \<open>Exception\<close>.
\<close>

datatype exn = TimeoutError string | Exception string

fun str :: "exn \<Rightarrow> string" where
  "str (TimeoutError m) = m"
| "str (Exception m) = m"

subsection \<open>Chunked processing\<close>

text \<open>
  \<^verbatim>\<open>speaker_mapping\<close>: a dictionary from chunk-local to global identities, in insertion
  order. The loop over \<^verbatim>\<open>chunk_segments\<close> shifts the timestamps by \<^verbatim>\<open>start_ms / 1000\<close> and
  maps the identity, allocating \<^verbatim>\<open>f"Speaker {len(speaker_mapping) + 1}"\<close> for a new one.
\<close>

type_synonym speaker_mapping = "(speaker_id \<times> speaker_id) list"

fun adjust_chunk :: "real \<Rightarrow> speaker_mapping \<Rightarrow> segment list \<Rightarrow> segment list \<times> speaker_mapping" where
  "adjust_chunk off m [] = ([], m)"
| "adjust_chunk off m (s # ss) =
     (case (case map_of m (speaker s) of
              None \<Rightarrow> (m @ [(speaker s, Speaker (length m + 1))], Speaker (length m + 1))
            | Some g \<Rightarrow> (m, g)) of
        (m', g) \<Rightarrow>
          (case adjust_chunk off m' ss of
             (ss', m'') \<Rightarrow>
               (s\<lparr>seg_start := seg_start s + off, seg_end := seg_end s + off, speaker := g\<rparr> # ss',
                m'')))"

text \<open>
  The loop \<^verbatim>\<open>for i in range(chunk_count)\<close>; \<open>k\<close> counts the iterations left. \<open>pipeline i\<close>
  is what \<^verbatim>\<open>self.pipeline\<close> answers on the \<open>i\<close>-th chunk (an exception skips the chunk),
  \<open>jit i\<close> the random numbers drawn while that chunk is processed, \<open>len\<close> is
  \<^verbatim>\<open>len(audio)\<close> in milliseconds and \<open>chunk_duration\<close> is in seconds.
\<close>

fun chunk_loop ::
  "(nat \<Rightarrow> exn + turn list) \<Rightarrow> (nat \<Rightarrow> nat \<Rightarrow> real) \<Rightarrow> nat \<Rightarrow> nat \<Rightarrow> nat \<Rightarrow> nat
     \<Rightarrow> segment list \<Rightarrow> speaker_mapping \<Rightarrow> segment list \<times> speaker_mapping" where
  "chunk_loop pipeline jit len chunk_duration i 0 all_segments m = (all_segments, m)"
| "chunk_loop pipeline jit len chunk_duration i (Suc k) all_segments m =
     (if len \<le> i * chunk_duration * 1000 then (all_segments, m)
      else
        (case pipeline i of
           Inl e \<Rightarrow> chunk_loop pipeline jit len chunk_duration (Suc i) k all_segments m
         | Inr turns \<Rightarrow>
             (case adjust_chunk (real (i * chunk_duration * 1000) / 1000) m
                     (process_diarization_results (jit i) turns) of
                (chunk_segments, m') \<Rightarrow>
                  chunk_loop pipeline jit len chunk_duration (Suc i) k
                    (all_segments @ chunk_segments) m')))"

text \<open>
  \<^verbatim>\<open>chunk_count = int(total_duration / chunk_duration) + 1\<close> with
  \<^verbatim>\<open>total_duration = len(audio) / 1000\<close>.
\<close>

definition chunk_count :: "nat \<Rightarrow> nat \<Rightarrow> nat" where
  "chunk_count len chunk_duration = nat \<lfloor>(real len / 1000) / real chunk_duration\<rfloor> + 1"

definition chunked_segments ::
  "(nat \<Rightarrow> exn + turn list) \<Rightarrow> (nat \<Rightarrow> nat \<Rightarrow> real) \<Rightarrow> nat \<Rightarrow> nat
     \<Rightarrow> segment list \<times> speaker_mapping" where
  "chunked_segments pipeline jit len chunk_duration =
     chunk_loop pipeline jit len chunk_duration 0 (chunk_count len chunk_duration) [] []"

definition process_in_chunks ::
  "(nat \<Rightarrow> exn + turn list) \<Rightarrow> (nat \<Rightarrow> nat \<Rightarrow> real) \<Rightarrow> nat \<Rightarrow> nat \<Rightarrow> segment list" where
  "process_in_chunks pipeline jit len chunk_duration =
     merge_pass collar (fst (chunked_segments pipeline jit len chunk_duration))"

subsection \<open>The diarizer's entry point\<close>

text \<open>
  The sentinel dictionary that \<^verbatim>\<open>diarize\<close> returns when it cannot run:
  \<^verbatim>\<open>{"start": 0.0, "end": 100000.0, "speaker": "SPEAKER_UNKNOWN", "text": "", "error": ...}\<close>.
\<close>

record sentinel_segment =
  sentinel_start :: real
  sentinel_end :: real
  sentinel_speaker :: speaker_id
  sentinel_text :: string
  sentinel_error :: string

definition unknown_speaker :: "string \<Rightarrow> sentinel_segment" where
  "unknown_speaker msg =
     \<lparr>sentinel_start = 0, sentinel_end = 100000, sentinel_speaker = SPEAKER_UNKNOWN,
      sentinel_text = [], sentinel_error = msg\<rparr>"

datatype diar_item = Segment segment | Sentinel sentinel_segment

text \<open>
  The \<^verbatim>\<open>SpeakerDiarization\<close> object and what its collaborators answer during one call:
  whether \<^verbatim>\<open>self.pipeline\<close> was loaded, \<^verbatim>\<open>len(AudioSegment.from_file(...))\<close>, the answer of
  the pipeline on the whole file and on each chunk, the random numbers, and
  \<^verbatim>\<open>os.unlink\<close> of the temporary file.
\<close>

record diarizer =
  pipeline_loaded :: bool
  audio_length :: "exn + nat"
  run_pipeline :: "exn + turn list"
  run_chunk :: "nat \<Rightarrow> exn + turn list"
  jitter :: "nat \<Rightarrow> real"
  chunk_jitter :: "nat \<Rightarrow> nat \<Rightarrow> real"
  cleanup :: "exn option"

text \<open>The statements after the chunk check: the whole file in one pipeline call.\<close>

definition diarize_full :: "diarizer \<Rightarrow> nat option \<Rightarrow> bool \<Rightarrow> exn + segment list" where
  "diarize_full d num_speakers is_youtube_shorts =
     (case run_pipeline d of
        Inl e \<Rightarrow> Inl e
      | Inr turns \<Rightarrow>
          (case cleanup d of
             Some e \<Rightarrow> Inl e
           | None \<Rightarrow>
               Inr (if is_youtube_shorts \<and> num_speakers = Some 2
                    then enforce_two_speakers (process_diarization_results (jitter d) turns)
                    else process_diarization_results (jitter d) turns)))"

text \<open>
  The body of the \<^verbatim>\<open>try\<close>: with a positive \<^verbatim>\<open>max_duration\<close> a longer recording goes to
  \<^verbatim>\<open>_process_in_chunks\<close>; a failure to read the length falls through to the whole file.
\<close>

definition diarize_body :: "diarizer \<Rightarrow> nat option \<Rightarrow> bool \<Rightarrow> nat option \<Rightarrow> exn + segment list" where
  "diarize_body d num_speakers is_youtube_shorts max_duration =
     (case max_duration of
        None \<Rightarrow> diarize_full d num_speakers is_youtube_shorts
      | Some md \<Rightarrow>
          (if 0 < md then
             (case audio_length d of
                Inl e \<Rightarrow> diarize_full d num_speakers is_youtube_shorts
              | Inr len \<Rightarrow>
                  (if real md < real len / 1000
                   then Inr (process_in_chunks (run_chunk d) (chunk_jitter d) len md)
                   else diarize_full d num_speakers is_youtube_shorts))
           else diarize_full d num_speakers is_youtube_shorts))"

definition diarize :: "diarizer \<Rightarrow> nat option \<Rightarrow> bool \<Rightarrow> nat option \<Rightarrow> diar_item list" where
  "diarize d num_speakers is_youtube_shorts max_duration =
     (if \<not> pipeline_loaded d then
        [Sentinel (unknown_speaker
           ''Diarization disabled or failed to initialize. Check HF_ACCESS_TOKEN.'')]
      else
        (case diarize_body d num_speakers is_youtube_shorts max_duration of
           Inl e \<Rightarrow> [Sentinel (unknown_speaker (''Diarization failed: '' @ str e))]
         | Inr segs \<Rightarrow> map Segment segs))"

section \<open>The job orchestrator (Backend/app.py, process\_audio\_file)\<close>

subsection \<open>Values\<close>

text \<open>
  A transcript segment \<^verbatim>\<open>{start, end, text}\<close>; the orchestrator tests \<^verbatim>\<open>"end" in segment\<close>,
  so the key may be absent. A segment list of the record holds transcript segments or,
  after a replacement, what the diarizer put under \<^verbatim>\<open>"segments"\<close>.
\<close>

record transcript_segment =
  ts_start :: real
  ts_end :: "real option"
  ts_text :: string

datatype seg_item = TranscriptSeg transcript_segment | SpeakerSeg diar_item

datatype segments_value = SegList "seg_item list" | SegNotAList

text \<open>
  What \<^verbatim>\<open>transcript_result.get("text", "")\<close> can be: a string, or any other object, of which
  the model keeps its truth value and the message of the \<^verbatim>\<open>AttributeError\<close> that
  \<^verbatim>\<open>.startswith\<close> raises on it.
\<close>

datatype text_value = Text string | NotText bool string

text \<open>
  What \<^verbatim>\<open>transcriber.transcribe\<close> returns: a dictionary (its \<^verbatim>\<open>"text"\<close> and \<^verbatim>\<open>"segments"\<close>
  entries, \<open>None\<close> for an absent key), a string, or an object of another type (with the
  text of \<^verbatim>\<open>type(transcript_result)\<close>).
\<close>

datatype transcript_result =
    TranscriptDict "text_value option" "segments_value option"
  | TranscriptStr string
  | TranscriptOther string

text \<open>
  What the diarizer returns to the orchestrator: a dictionary (its \<^verbatim>\<open>"segments"\<close> entry),
  a list (what \<^verbatim>\<open>SpeakerDiarization.diarize\<close> returns), or something else.
\<close>

datatype diar_result =
    DiarDict "segments_value option"
  | DiarList "diar_item list"
  | DiarOther

datatype diarization_field = DiarOutput "segments_value option" | DiarError string

datatype topics_result = TopicList "string list" | TopicsOther

datatype summary_value = SummaryStr string | SummaryList "string list"

text \<open>
  What a summarizer returns: a dictionary (its \<^verbatim>\<open>"summary"\<close> entry) or something else.
\<close>

datatype summarizer_result = SummaryDict "summary_value option" | SummaryOther

text \<open>
  The \<^verbatim>\<open>results\<close> dictionary; \<open>None\<close> is an absent key, except for \<^verbatim>\<open>error\<close>, whose
  key is always present and where \<open>None\<close> is Python's \<^verbatim>\<open>None\<close>.
\<close>

record results =
  job_id :: string
  status :: string
  error :: "string option"
  warning :: "string option"
  metadata :: "(string \<times> string) list option"
  transcript :: "text_value option"
  segments :: "segments_value option"
  diarization :: "diarization_field option"
  topics :: "string list option"
  abstractive_summary :: "summary_value option"
  extractive_summary :: "summary_value option"

text \<open>The transcriber object: \<^verbatim>\<open>_mock_mode\<close> and its truth value in \<^verbatim>\<open>if transcriber:\<close>.\<close>

record transcriber =
  mock_mode :: bool
  truthy :: bool

datatype collaborator =
    AudioProcessorInit | ExtractMetadata | TranscriberInit | Transcribe
  | Diarize | DetectTopics | ExtractiveSummarize | AbstractiveSummarize

text \<open>
  Everything outside the function that one run of \<^verbatim>\<open>process_audio_file\<close> reads: the
  arguments, the module's \<^verbatim>\<open>HF_ACCESS_TOKEN\<close>, what each collaborator answers when it is
  called (\<open>Inl\<close>: it raises; a \<^verbatim>\<open>TimeoutError\<close> here is the alarm of \<^verbatim>\<open>time_limit\<close> going off
  during the call), whether the timer of the threading branch of \<^verbatim>\<open>time_limit\<close> has fired
  when a block completes, and whether \<^verbatim>\<open>open\<close> and \<^verbatim>\<open>json.dump\<close> succeed on a record.
\<close>

record env =
  file_path :: string
  file_basename :: string
  given_metadata :: "(string \<times> string) list option"
  HF_ACCESS_TOKEN :: "string option"
  audio_processor_init :: "exn option"
  unbound_local_error :: exn
  extract_metadata :: "exn + (string \<times> string) list"
  transcriber_init :: "exn + transcriber"
  transcribe :: "exn + transcript_result"
  diarize_call :: "exn + diar_result"
  diarization_timer_fired :: bool
  detect_topics :: "exn + topics_result"
  topics_timer_fired :: bool
  extractive_summarize :: "exn + summarizer_result"
  abstractive_summarize :: "exn + summarizer_result"
  summarization_timer_fired :: bool
  write_file :: "results \<Rightarrow> exn option"

text \<open>
  The state of a run: the \<^verbatim>\<open>results\<close> dictionary, the collaborators called so far, and
  the records written to \<^verbatim>\<open>{job_id}_results.json\<close> so far.
\<close>

record state =
  res :: results
  invoked :: "collaborator list"
  persisted :: "results list"

subsection \<open>Helpers of the Python library\<close>

text \<open>
  \<^verbatim>\<open>d[k] = v\<close> and \<^verbatim>\<open>d.update(other)\<close> on a dictionary kept as an association list in
  insertion order.
\<close>

fun dict_set :: "'k \<Rightarrow> 'v \<Rightarrow> ('k \<times> 'v) list \<Rightarrow> ('k \<times> 'v) list" where
  "dict_set k v [] = [(k, v)]"
| "dict_set k v ((k', v') # kvs) =
     (if k = k' then (k, v) # kvs else (k', v') # dict_set k v kvs)"

definition dict_update :: "('k \<times> 'v) list \<Rightarrow> ('k \<times> 'v) list \<Rightarrow> ('k \<times> 'v) list" where
  "dict_update d other = foldl (\<lambda>acc kv. dict_set (fst kv) (snd kv) acc) d other"

text \<open>
  \<^verbatim>\<open>str.split()\<close> without arguments: the maximal runs of non-whitespace characters. The
  whitespace characters are those of ASCII.
\<close>

definition is_space :: "char \<Rightarrow> bool" where
  "is_space c =
     (c \<in> set [CHR '' '', CHR 0x09, CHR 0x0A, CHR 0x0B, CHR 0x0C, CHR 0x0D,
               CHR 0x1C, CHR 0x1D, CHR 0x1E, CHR 0x1F])"

fun split_words :: "string \<Rightarrow> string \<Rightarrow> string list" where
  "split_words w [] = (if w = [] then [] else [w])"
| "split_words w (c # cs) =
     (if is_space c then (if w = [] then split_words [] cs else w # split_words [] cs)
      else split_words (w @ [c]) cs)"

definition py_split :: "string \<Rightarrow> string list" where
  "py_split s = split_words [] s"

subsection \<open>The stages\<close>

definition initial_results :: "string \<Rightarrow> results" where
  "initial_results jid =
     \<lparr>job_id = jid, status = ''completed'', error = None, warning = None, metadata = None,
      transcript = None, segments = None, diarization = None, topics = None,
      abstractive_summary = None, extractive_summary = None\<rparr>"

definition initial_state :: "string \<Rightarrow> state" where
  "initial_state jid = \<lparr>res = initial_results jid, invoked = [], persisted = []\<rparr>"

definition call :: "collaborator \<Rightarrow> state \<Rightarrow> state" where
  "call c st = st\<lparr>invoked := invoked st @ [c]\<rparr>"

text \<open>\<^verbatim>\<open>audio_processor = AudioProcessor()\<close> in its \<^verbatim>\<open>try\<close>.\<close>

definition init_audio_processor :: "env \<Rightarrow> state \<Rightarrow> state" where
  "init_audio_processor env st =
     (case audio_processor_init env of
        None \<Rightarrow> call AudioProcessorInit st
      | Some e \<Rightarrow>
          (call AudioProcessorInit st)
            \<lparr>res := (res st)\<lparr>warning := Some (''Error initializing audio processor: '' @ str e)\<rparr>\<rparr>)"

text \<open>
  The metadata block. When the constructor above has failed, the name \<^verbatim>\<open>audio_processor\<close>
  is unbound and reading it raises; the handler of the block catches that too.
\<close>

definition metadata_failure :: "env \<Rightarrow> exn \<Rightarrow> (string \<times> string) list" where
  "metadata_failure env e =
     [(''error'', ''Failed to extract metadata: '' @ str e),
      (''file_path'', file_path env),
      (''audio_url'', ''/api/audio/'' @ file_basename env)]"

definition metadata_success :: "env \<Rightarrow> (string \<times> string) list \<Rightarrow> (string \<times> string) list" where
  "metadata_success env audio_metadata =
     dict_set ''audio_url'' (''/api/audio/'' @ file_basename env)
       (dict_set ''file_path'' (file_path env)
         (case given_metadata env of
            None \<Rightarrow> audio_metadata
          | Some m \<Rightarrow> dict_update audio_metadata m))"

definition extract_audio_metadata :: "env \<Rightarrow> state \<Rightarrow> state" where
  "extract_audio_metadata env st =
     (case audio_processor_init env of
        Some e \<Rightarrow>
          st\<lparr>res := (res st)\<lparr>metadata := Some (metadata_failure env (unbound_local_error env))\<rparr>\<rparr>
      | None \<Rightarrow>
          (case extract_metadata env of
             Inl e \<Rightarrow>
               (call ExtractMetadata st)
                 \<lparr>res := (res st)\<lparr>metadata := Some (metadata_failure env e)\<rparr>\<rparr>
           | Inr audio_metadata \<Rightarrow>
               (call ExtractMetadata st)
                 \<lparr>res := (res st)\<lparr>metadata := Some (metadata_success env audio_metadata)\<rparr>\<rparr>))"

text \<open>
  The transcriber block: \<open>Inl\<close> is the \<^verbatim>\<open>except\<close> branch, which fills the record before
  the early save; \<open>Inr\<close> carries the transcriber on.
\<close>

definition init_transcriber :: "env \<Rightarrow> state \<Rightarrow> state + transcriber \<times> state" where
  "init_transcriber env st =
     (case transcriber_init env of
        Inl e \<Rightarrow>
          Inl ((call TranscriberInit st)
                 \<lparr>res := (res st)
                    \<lparr>warning := Some (''Error initializing transcriber: '' @ str e),
                     transcript :=
                       Some (Text ''Error: Transcription failed due to initialization error.''),
                     segments := Some (SegList [])\<rparr>\<rparr>)
      | Inr t \<Rightarrow>
          Inr (t,
               if mock_mode t
               then (call TranscriberInit st)
                      \<lparr>res := (res st)
                         \<lparr>warning := Some
                            ''Running in mock mode - Whisper not available. Results may be limited.''\<rparr>\<rparr>
               else call TranscriberInit st))"

definition set_transcript :: "text_value \<Rightarrow> segments_value \<Rightarrow> state \<Rightarrow> state" where
  "set_transcript t sv st = st\<lparr>res := (res st)\<lparr>transcript := Some t, segments := Some sv\<rparr>\<rparr>"

definition transcribe_audio :: "env \<Rightarrow> transcriber \<Rightarrow> state \<Rightarrow> state" where
  "transcribe_audio env t st =
     (if truthy t then
        (case transcribe env of
           Inl e \<Rightarrow> set_transcript (Text (''Error: '' @ str e)) (SegList []) (call Transcribe st)
         | Inr (TranscriptDict txt segs) \<Rightarrow>
             set_transcript (case txt of None \<Rightarrow> Text [] | Some v \<Rightarrow> v)
               (case segs of None \<Rightarrow> SegList [] | Some v \<Rightarrow> v) (call Transcribe st)
         | Inr (TranscriptStr s) \<Rightarrow> set_transcript (Text s) (SegList []) (call Transcribe st)
         | Inr (TranscriptOther ty) \<Rightarrow>
             set_transcript (Text (''Error: Unexpected transcription result type: '' @ ty))
               (SegList []) (call Transcribe st))
      else set_transcript (Text ''Error: Transcription service unavailable.'') (SegList []) st)"

text \<open>
  \<^verbatim>\<open>results.get("transcript") and not results.get("transcript").startswith("Error:")\<close>:
  \<open>Inr True\<close> for a usable transcript, \<open>Inl\<close> when \<^verbatim>\<open>.startswith\<close> raises. The gate after
  the transcription tests the negation.
\<close>

definition valid_transcript :: "results \<Rightarrow> exn + bool" where
  "valid_transcript r =
     (case transcript r of
        None \<Rightarrow> Inr False
      | Some (Text t) \<Rightarrow> Inr (t \<noteq> [] \<and> \<not> prefix ''Error:'' t)
      | Some (NotText tr msg) \<Rightarrow> (if tr then Inl (Exception msg) else Inr False))"

text \<open>\<^verbatim>\<open>with open(results_file, 'w') as f: json.dump(results, f, ...)\<close>.\<close>

definition save_results :: "env \<Rightarrow> state \<Rightarrow> exn option \<times> state" where
  "save_results env st =
     (case write_file env (res st) of
        None \<Rightarrow> (None, st\<lparr>persisted := persisted st @ [res st]\<rparr>)
      | Some e \<Rightarrow> (Some e, st))"

subsection \<open>Speaker diarization stage\<close>

definition token_configured :: "env \<Rightarrow> bool" where
  "token_configured env = (case HF_ACCESS_TOKEN env of None \<Rightarrow> False | Some t \<Rightarrow> t \<noteq> [])"

definition item_end :: "seg_item \<Rightarrow> real option" where
  "item_end it =
     (case it of
        TranscriptSeg s \<Rightarrow> ts_end s
      | SpeakerSeg (Segment s) \<Rightarrow> Some (seg_end s)
      | SpeakerSeg (Sentinel s) \<Rightarrow> Some (sentinel_end s))"

text \<open>
  The loop \<^verbatim>\<open>total_audio_duration = max(total_audio_duration, segment["end"])\<close> from 0.
\<close>

definition total_audio_duration :: "seg_item list \<Rightarrow> real" where
  "total_audio_duration l =
     foldl (\<lambda>d it. case item_end it of None \<Rightarrow> d | Some e \<Rightarrow> max d e) 0 l"

definition set_diarization :: "diarization_field \<Rightarrow> state \<Rightarrow> state" where
  "set_diarization d st = st\<lparr>res := (res st)\<lparr>diarization := Some d\<rparr>\<rparr>"

text \<open>
  \<^verbatim>\<open>results.get("segments") and isinstance(results.get("segments"), list)\<close>: the list, when
  it is one and is not empty.
\<close>

definition usable_segments :: "results \<Rightarrow> seg_item list option" where
  "usable_segments r =
     (case segments r of
        Some (SegList l) \<Rightarrow> (if l = [] then None else Some l)
      | _ \<Rightarrow> None)"

text \<open>What the orchestrator does with the value that the diarizer returned.\<close>

definition accept_diarization :: "diar_result \<Rightarrow> state \<Rightarrow> state" where
  "accept_diarization r st =
     (case r of
        DiarDict sv \<Rightarrow>
          (case sv of
             Some (SegList l) \<Rightarrow>
               (if l \<noteq> []
                then st\<lparr>res := (res st)\<lparr>diarization := Some (DiarOutput sv),
                                       segments := Some (SegList l)\<rparr>\<rparr>
                else set_diarization (DiarOutput sv) st)
           | _ \<Rightarrow> set_diarization (DiarOutput sv) st)
      | _ \<Rightarrow> set_diarization (DiarError ''Invalid diarization result format'') st)"

text \<open>The block under \<^verbatim>\<open>with time_limit(DIARIZATION_TIMEOUT)\<close> and its two handlers.\<close>

definition run_diarization :: "env \<Rightarrow> state \<Rightarrow> state" where
  "run_diarization env st =
     (case diarize_call env of
        Inl (TimeoutError m) \<Rightarrow>
          set_diarization (DiarError ''Speaker diarization timed out'') (call Diarize st)
      | Inl (Exception m) \<Rightarrow> set_diarization (DiarError m) (call Diarize st)
      | Inr r \<Rightarrow>
          (if diarization_timer_fired env
           then set_diarization (DiarError ''Speaker diarization timed out'')
                  (accept_diarization r (call Diarize st))
           else accept_diarization r (call Diarize st)))"

definition speaker_diarization :: "env \<Rightarrow> state \<Rightarrow> state" where
  "speaker_diarization env st =
     (if token_configured env \<and> usable_segments (res st) \<noteq> None then
        (case usable_segments (res st) of
           None \<Rightarrow> st
         | Some l \<Rightarrow>
             (if total_audio_duration l < 10 \<or> length l < 5
              then set_diarization (DiarError ''Audio too short for speaker detection'') st
              else run_diarization env st))
      else if \<not> token_configured env
        then set_diarization (DiarError ''Hugging Face access token not provided'') st
      else if usable_segments (res st) = None
        then set_diarization (DiarError ''No valid segments available for diarization'') st
      else st)"

subsection \<open>Topic detection and summarization stages\<close>

definition transcript_text :: "results \<Rightarrow> string" where
  "transcript_text r = (case transcript r of Some (Text t) \<Rightarrow> t | _ \<Rightarrow> [])"

definition set_topics :: "string list \<Rightarrow> state \<Rightarrow> state" where
  "set_topics ts st = st\<lparr>res := (res st)\<lparr>topics := Some ts\<rparr>\<rparr>"

text \<open>
  The block under \<^verbatim>\<open>with time_limit(TOPIC_DETECTION_TIMEOUT)\<close> with its handlers: every
  failure leaves the empty list.
\<close>

definition run_topic_detection :: "env \<Rightarrow> state \<Rightarrow> state" where
  "run_topic_detection env st =
     (if length (py_split (transcript_text (res st))) < 30 then set_topics [] st
      else
        (case detect_topics env of
           Inl e \<Rightarrow> set_topics [] (call DetectTopics st)
         | Inr (TopicList l) \<Rightarrow>
             (if topics_timer_fired env then set_topics [] (call DetectTopics st)
              else set_topics l (call DetectTopics st))
         | Inr TopicsOther \<Rightarrow> set_topics [] (call DetectTopics st)))"

definition topic_detection :: "env \<Rightarrow> state \<Rightarrow> exn option \<times> state" where
  "topic_detection env st =
     (case valid_transcript (res st) of
        Inl e \<Rightarrow> (Some e, st)
      | Inr True \<Rightarrow> (None, run_topic_detection env st)
      | Inr False \<Rightarrow> (None, set_topics [] st))"

definition set_summaries :: "summary_value \<Rightarrow> summary_value \<Rightarrow> state \<Rightarrow> state" where
  "set_summaries a e st =
     st\<lparr>res := (res st)\<lparr>abstractive_summary := Some a, extractive_summary := Some e\<rparr>\<rparr>"

text \<open>The two inner \<^verbatim>\<open>try\<close> blocks, each with its own \<^verbatim>\<open>except Exception\<close>.\<close>

definition extractive_step :: "env \<Rightarrow> state \<Rightarrow> state" where
  "extractive_step env st =
     (call ExtractiveSummarize st)
       \<lparr>res := (res st)\<lparr>extractive_summary := Some
          (case extractive_summarize env of
             Inl e \<Rightarrow> SummaryList [''Error: '' @ str e]
           | Inr (SummaryDict (Some v)) \<Rightarrow> v
           | Inr _ \<Rightarrow> SummaryList [''Error generating extractive summary''])\<rparr>\<rparr>"

definition abstractive_step :: "env \<Rightarrow> state \<Rightarrow> state" where
  "abstractive_step env st =
     (call AbstractiveSummarize st)
       \<lparr>res := (res st)\<lparr>abstractive_summary := Some
          (case abstractive_summarize env of
             Inl e \<Rightarrow> SummaryStr (''Error: '' @ str e)
           | Inr (SummaryDict (Some v)) \<Rightarrow> v
           | Inr _ \<Rightarrow> SummaryStr ''Error generating abstractive summary'')\<rparr>\<rparr>"

text \<open>
  The block under \<^verbatim>\<open>with time_limit(SUMMARIZATION_TIMEOUT)\<close>; a \<^verbatim>\<open>TimeoutError\<close> raised
  when the block completes overwrites both summaries.
\<close>

definition run_summarization :: "env \<Rightarrow> state \<Rightarrow> state" where
  "run_summarization env st =
     (let st' =
        (if length (py_split (transcript_text (res st))) < 30
         then set_summaries (SummaryStr ''The content is too short for a meaningful summary.'')
                (SummaryList [''The content is too short for extracting key points.'']) st
         else abstractive_step env (extractive_step env st))
      in if summarization_timer_fired env
         then set_summaries (SummaryStr ''Summarization timed out'')
                (SummaryList [''Summarization timed out'']) st'
         else st')"

definition summarization :: "env \<Rightarrow> state \<Rightarrow> exn option \<times> state" where
  "summarization env st =
     (case valid_transcript (res st) of
        Inl e \<Rightarrow> (Some e, st)
      | Inr True \<Rightarrow> (None, run_summarization env st)
      | Inr False \<Rightarrow>
          (None, set_summaries (SummaryStr ''Summarization skipped - No valid transcript'')
                   (SummaryList [''Summarization skipped - No valid transcript'']) st))"

subsection \<open>The whole function\<close>

text \<open>
  The statements inside the outer \<^verbatim>\<open>try\<close>. The first component of the result is the
  exception that leaves them, if any.
\<close>

definition after_gate :: "env \<Rightarrow> state \<Rightarrow> exn option \<times> state" where
  "after_gate env st =
     (case topic_detection env (speaker_diarization env st) of
        (Some e, st') \<Rightarrow> (Some e, st')
      | (None, st') \<Rightarrow>
          (case summarization env st' of
             (Some e, st'') \<Rightarrow> (Some e, st'')
           | (None, st'') \<Rightarrow> save_results env st''))"

definition transcription :: "env \<Rightarrow> string \<Rightarrow> state + state" where
  "transcription env jid =
     (case init_transcriber env
             (extract_audio_metadata env (init_audio_processor env (initial_state jid))) of
        Inl st \<Rightarrow> Inl st
      | Inr (t, st) \<Rightarrow> Inr (transcribe_audio env t st))"

definition main_sequence :: "env \<Rightarrow> string \<Rightarrow> exn option \<times> state" where
  "main_sequence env jid =
     (case transcription env jid of
        Inl st \<Rightarrow> save_results env st
      | Inr st \<Rightarrow>
          (case valid_transcript (res st) of
             Inl e \<Rightarrow> (Some e, st)
           | Inr False \<Rightarrow> save_results env st
           | Inr True \<Rightarrow> after_gate env st))"

text \<open>The record that the outer handler writes.\<close>

definition error_record :: "string \<Rightarrow> exn \<Rightarrow> results" where
  "error_record jid e =
     \<lparr>job_id = jid, status = ''error'', error = Some (str e), warning = None, metadata = None,
      transcript = None, segments = None, diarization = None, topics = None,
      abstractive_summary = None, extractive_summary = None\<rparr>"

text \<open>
  \<^verbatim>\<open>process_audio_file\<close>: the outer \<^verbatim>\<open>try\<close> and its handler, whose own write sits in a
  \<^verbatim>\<open>try\<close> that only logs. The first component is the exception that leaves the function.
\<close>

definition process_audio_file :: "env \<Rightarrow> string \<Rightarrow> exn option \<times> state" where
  "process_audio_file env jid =
     (case main_sequence env jid of
        (None, st) \<Rightarrow> (None, st)
      | (Some e, st) \<Rightarrow>
          (case write_file env (error_record jid e) of
             None \<Rightarrow> (None, st\<lparr>persisted := persisted st @ [error_record jid e]\<rparr>)
           | Some write_error \<Rightarrow> (None, st)))"

section \<open>The summarizers (Backend/summarization.py)\<close>

text \<open>
  The functions of Python's \<^verbatim>\<open>re\<close> module that the summarizers call, as inputs of the
  model: the two \<^verbatim>\<open>re.sub\<close> of \<^verbatim>\<open>clean_transcript\<close> and the sentence split
  \<^verbatim>\<open>re.split(r'(?<=[.!?])\s+', ...)\<close>. Each may answer or raise.
\<close>

record regex_lib =
  sub_speaker_labels :: "string \<Rightarrow> exn + string"
  sub_timestamps :: "string \<Rightarrow> exn + string"
  split_sentences :: "string \<Rightarrow> exn + string list"

definition clean_transcript :: "regex_lib \<Rightarrow> string \<Rightarrow> exn + string" where
  "clean_transcript re text =
     (case sub_speaker_labels re text of
        Inl e \<Rightarrow> Inl e
      | Inr cleaned \<Rightarrow> sub_timestamps re cleaned)"

text \<open>\<^verbatim>\<open>try: body except Exception as e: handler\<close>.\<close>

definition try_except :: "exn + 'a \<Rightarrow> (exn \<Rightarrow> exn + 'a) \<Rightarrow> exn + 'a" where
  "try_except body handler = (case body of Inl e \<Rightarrow> handler e | Inr v \<Rightarrow> Inr v)"

text \<open>\<^verbatim>\<open>s.strip()\<close> and \<^verbatim>\<open>" ".join(xs)\<close>.\<close>

definition py_strip :: "string \<Rightarrow> string" where
  "py_strip s = rev (dropWhile is_space (rev (dropWhile is_space s)))"

fun join_spaces :: "string list \<Rightarrow> string" where
  "join_spaces [] = []"
| "join_spaces [x] = x"
| "join_spaces (x # y # zs) = x @ '' '' @ join_spaces (y # zs)"

text \<open>A dictionary \<^verbatim>\<open>{"summary": ...}\<close>, as the list of its items.\<close>

type_synonym summary_dict = "(string \<times> summary_value) list"

text \<open>The list comprehension that keeps the stripped, non-empty sentences.\<close>

definition stripped_points :: "string list \<Rightarrow> string list" where
  "stripped_points sentences = filter (\<lambda>s. s \<noteq> []) (map py_strip sentences)"

subsection \<open>ExtractiveSummarizer\<close>

text \<open>
  What \<^verbatim>\<open>PlaintextParser.from_string\<close> followed by \<^verbatim>\<open>self.summarizer(document, count)\<close> does:
  it raises \<^verbatim>\<open>LookupError\<close>, raises something else, or returns the chosen sentences
  (as \<^verbatim>\<open>str(sentence)\<close>).
\<close>

datatype sumy_outcome = SumyLookupError | SumyRaises exn | SumySentences "string list"

record extractive_summarizer =
  SUMY_AVAILABLE :: bool
  sentence_count :: nat
  extractive_re :: regex_lib
  text_rank :: "string \<Rightarrow> nat \<Rightarrow> sumy_outcome"

text \<open>
  \<^verbatim>\<open>_fallback_summarize\<close>: the first \<^verbatim>\<open>max(3, min(10, int(len(sentences) * 0.2)))\<close>
  sentences, stripped, the empty ones dropped; a default point when none is left; a
  constant answer when anything raises.
\<close>

definition extractive_fallback_body :: "extractive_summarizer \<Rightarrow> string \<Rightarrow> exn + summary_dict" where
  "extractive_fallback_body x text =
     (case clean_transcript (extractive_re x) text of
        Inl e \<Rightarrow> Inl e
      | Inr cleaned_text \<Rightarrow>
          (case split_sentences (extractive_re x) cleaned_text of
             Inl e \<Rightarrow> Inl e
           | Inr sentences \<Rightarrow>
               (let num_sentences = max 3 (min 10 (length sentences div 5));
                    summary_points =
                      stripped_points (take (min num_sentences (length sentences)) sentences)
                in Inr [(''summary'',
                         SummaryList (if summary_points = []
                                      then [''No key points could be extracted.'']
                                      else summary_points))])))"

definition ExtractiveSummarizer_fallback_summarize ::
  "extractive_summarizer \<Rightarrow> string \<Rightarrow> exn + summary_dict" where
  "ExtractiveSummarizer_fallback_summarize x text =
     try_except (extractive_fallback_body x text)
       (\<lambda>e. Inr [(''summary'', SummaryList [''Could not generate summary for this content.''])])"

text \<open>
  \<^verbatim>\<open>summarize\<close>: the inner \<^verbatim>\<open>try\<close> with its \<^verbatim>\<open>except LookupError\<close>, inside the outer
  \<^verbatim>\<open>try\<close> with its \<^verbatim>\<open>except Exception\<close>.
\<close>

definition extractive_inner :: "extractive_summarizer \<Rightarrow> string \<Rightarrow> string \<Rightarrow> exn + summary_dict" where
  "extractive_inner x text cleaned_text =
     (case text_rank x cleaned_text (sentence_count x) of
        SumyLookupError \<Rightarrow> ExtractiveSummarizer_fallback_summarize x cleaned_text
      | SumyRaises e \<Rightarrow> Inl e
      | SumySentences summary \<Rightarrow>
          (if py_strip (join_spaces summary) = []
           then ExtractiveSummarizer_fallback_summarize x text
           else Inr [(''summary'',
                      SummaryList (if stripped_points summary = []
                                   then [''No key points could be extracted.'']
                                   else stripped_points summary))]))"

definition ExtractiveSummarizer_summarize ::
  "extractive_summarizer \<Rightarrow> string \<Rightarrow> exn + summary_dict" where
  "ExtractiveSummarizer_summarize x text =
     (if \<not> SUMY_AVAILABLE x then ExtractiveSummarizer_fallback_summarize x text
      else
        try_except
          (case clean_transcript (extractive_re x) text of
             Inl e \<Rightarrow> Inl e
           | Inr cleaned_text \<Rightarrow> extractive_inner x text cleaned_text)
          (\<lambda>e. ExtractiveSummarizer_fallback_summarize x text))"

subsection \<open>AbstractiveSummarizer\<close>

text \<open>
  \<open>generate input max_length\<close> stands for \<^verbatim>\<open>self.tokenizer.encode\<close>,
  \<^verbatim>\<open>self.model.generate\<close> and \<^verbatim>\<open>self.tokenizer.decode\<close> on one input text; a model or
  tokenizer that failed to load makes it raise.
\<close>

record abstractive_summarizer =
  model_available :: bool
  max_length :: nat
  abstractive_re :: regex_lib
  generate :: "string \<Rightarrow> nat \<Rightarrow> exn + string"

definition word_count :: "string \<Rightarrow> nat" where
  "word_count s = length (py_split s)"

definition too_short :: summary_dict where
  "too_short = [(''summary'', SummaryStr ''The content is too short for a meaningful summary.'')]"

definition abstractive_fallback_body :: "abstractive_summarizer \<Rightarrow> string \<Rightarrow> exn + summary_dict" where
  "abstractive_fallback_body a text =
     (case clean_transcript (abstractive_re a) text of
        Inl e \<Rightarrow> Inl e
      | Inr cleaned_text \<Rightarrow>
          (if word_count cleaned_text < 20 then Inr too_short
           else
             (case split_sentences (abstractive_re a) cleaned_text of
                Inl e \<Rightarrow> Inl e
              | Inr sentences \<Rightarrow>
                  (if length sentences \<le> 4
                   then Inr [(''summary'', SummaryStr (join_spaces sentences))]
                   else
                     (let first_sentences = join_spaces (take 3 sentences);
                          mid_start = max 3 (length sentences div 2 - 1);
                          mid_sentences = join_spaces (take 2 (drop mid_start sentences));
                          last_sentences = join_spaces (drop (length sentences - 2) sentences)
                      in Inr [(''summary'',
                               SummaryStr (first_sentences @ '' [...] '' @ mid_sentences
                                             @ '' [...] '' @ last_sentences))])))))"

definition AbstractiveSummarizer_fallback_summarize ::
  "abstractive_summarizer \<Rightarrow> string \<Rightarrow> exn + summary_dict" where
  "AbstractiveSummarizer_fallback_summarize a text =
     try_except (abstractive_fallback_body a text)
       (\<lambda>e. Inr [(''summary'', SummaryStr ''Unable to generate summary for this content.'')])"

text \<open>\<^verbatim>\<open>first[:2]\<close> and \<^verbatim>\<open>[-2:]\<close> of the sentences, the fallback text of a chunk.\<close>

definition first_and_last :: "string list \<Rightarrow> string" where
  "first_and_last sentences =
     join_spaces (take 2 sentences) @ '' [...] ''
       @ join_spaces (drop (length sentences - 2) sentences)"

text \<open>
  \<^verbatim>\<open>_summarize_chunk\<close>. Its handler splits the chunk again, outside any \<^verbatim>\<open>try\<close>.
\<close>

definition summarize_chunk :: "abstractive_summarizer \<Rightarrow> string \<Rightarrow> exn + summary_dict" where
  "summarize_chunk a chunk =
     try_except
       (if word_count chunk < 30 then Inr [(''summary'', SummaryStr chunk)]
        else
          (case generate a (''summarize: '' @ chunk) 150 of
             Inl e \<Rightarrow> Inl e
           | Inr summary \<Rightarrow>
               (if py_strip summary = [] \<or> length (py_strip summary) < 10
                then Inr [(''summary'', SummaryStr (take 500 chunk @ '' [...]''))]
                else Inr [(''summary'', SummaryStr summary)])))
       (\<lambda>e. case split_sentences (abstractive_re a) chunk of
               Inl e' \<Rightarrow> Inl e'
             | Inr sentences \<Rightarrow>
                 (if length sentences \<le> 4 then Inr [(''summary'', SummaryStr chunk)]
                  else Inr [(''summary'', SummaryStr (first_and_last sentences))]))"

text \<open>
  The chunks of \<^verbatim>\<open>_summarize_long_text\<close>:
  \<^verbatim>\<open>for i in range(0, len(sentences), chunk_size)\<close>, the blank ones dropped. \<open>k\<close> bounds the
  number of iterations.
\<close>

fun sentence_chunks :: "nat \<Rightarrow> nat \<Rightarrow> string list \<Rightarrow> string list" where
  "sentence_chunks 0 chunk_size sentences = []"
| "sentence_chunks (Suc k) chunk_size sentences =
     (if sentences = [] then []
      else
        (if py_strip (join_spaces (take chunk_size sentences)) \<noteq> []
         then [join_spaces (take chunk_size sentences)] else [])
        @ sentence_chunks k chunk_size (drop chunk_size sentences))"

text \<open>
  What one worker leaves in \<^verbatim>\<open>chunk_summaries\<close>: \<^verbatim>\<open>summary_dict.get("summary", "")\<close>, or the
  fallback text when \<^verbatim>\<open>future.result()\<close> raises.
\<close>

definition chunk_summary :: "abstractive_summarizer \<Rightarrow> string \<Rightarrow> exn + string" where
  "chunk_summary a chunk =
     (case summarize_chunk a chunk of
        Inr d \<Rightarrow>
          Inr (case map_of d ''summary'' of Some (SummaryStr s) \<Rightarrow> s | _ \<Rightarrow> [])
      | Inl e \<Rightarrow>
          (case split_sentences (abstractive_re a) chunk of
             Inl e' \<Rightarrow> Inl e'
           | Inr sentences \<Rightarrow> Inr (first_and_last sentences)))"

text \<open>
  The results of the pool, sorted by chunk index: the summaries in the order of the
  chunks; an exception of one of them leaves the \<^verbatim>\<open>with\<close> block.
\<close>

fun collect_summaries :: "abstractive_summarizer \<Rightarrow> string list \<Rightarrow> exn + string list" where
  "collect_summaries a [] = Inr []"
| "collect_summaries a (c # cs) =
     (case chunk_summary a c of
        Inl e \<Rightarrow> Inl e
      | Inr s \<Rightarrow> (case collect_summaries a cs of Inl e \<Rightarrow> Inl e | Inr ss \<Rightarrow> Inr (s # ss)))"

definition long_text_body :: "abstractive_summarizer \<Rightarrow> string \<Rightarrow> exn + summary_dict" where
  "long_text_body a text =
     (case clean_transcript (abstractive_re a) text of
        Inl e \<Rightarrow> Inl e
      | Inr cleaned_text \<Rightarrow>
          (case split_sentences (abstractive_re a) cleaned_text of
             Inl e \<Rightarrow> Inl e
           | Inr sentences \<Rightarrow>
               (if length sentences \<le> 10 then summarize_chunk a cleaned_text
                else
                  (let chunks_target = min 5 (max 3 (length sentences div 200));
                       chunk_size = max 10 (length sentences div chunks_target);
                       chunks = sentence_chunks (length sentences) chunk_size sentences
                   in if chunks = []
                      then Inl (Exception ''max_workers must be greater than 0'')
                      else
                        (case collect_summaries a chunks of
                           Inl e \<Rightarrow> Inl e
                         | Inr summaries \<Rightarrow>
                             (if 500 < word_count (join_spaces summaries)
                              then summarize_chunk a (join_spaces summaries)
                              else Inr [(''summary'', SummaryStr (join_spaces summaries))]))))))"

definition summarize_long_text :: "abstractive_summarizer \<Rightarrow> string \<Rightarrow> exn + summary_dict" where
  "summarize_long_text a text =
     try_except (long_text_body a text) (\<lambda>e. AbstractiveSummarizer_fallback_summarize a text)"

text \<open>\<^verbatim>\<open>summarize\<close> with \<^verbatim>\<open>max_input_length = 1024\<close>, its default.\<close>

definition abstractive_body :: "abstractive_summarizer \<Rightarrow> string \<Rightarrow> exn + summary_dict" where
  "abstractive_body a text =
     (case clean_transcript (abstractive_re a) text of
        Inl e \<Rightarrow> Inl e
      | Inr cleaned_text \<Rightarrow>
          (if word_count cleaned_text < 20 then Inr too_short
           else if 1024 < word_count cleaned_text then summarize_long_text a cleaned_text
           else if 600 < word_count cleaned_text then summarize_long_text a cleaned_text
           else
             (case generate a (''summarize: '' @ cleaned_text) (max_length a) of
                Inl e \<Rightarrow> Inl e
              | Inr summary \<Rightarrow>
                  (if py_strip summary = [] \<or> length (py_strip summary) < 10
                   then AbstractiveSummarizer_fallback_summarize a text
                   else Inr [(''summary'', SummaryStr summary)]))))"

definition AbstractiveSummarizer_summarize ::
  "abstractive_summarizer \<Rightarrow> string \<Rightarrow> exn + summary_dict" where
  "AbstractiveSummarizer_summarize a text =
     (if \<not> model_available a then AbstractiveSummarizer_fallback_summarize a text
      else try_except (abstractive_body a text)
             (\<lambda>e. AbstractiveSummarizer_fallback_summarize a text))"

text \<open>A summary dictionary of each kind.\<close>

definition points_dict :: "exn + summary_dict \<Rightarrow> bool" where
  "points_dict r =
     (\<exists>d l. r = Inr d \<and> map_of d ''summary'' = Some (SummaryList l) \<and> l \<noteq> [])"

definition text_dict :: "exn + summary_dict \<Rightarrow> bool" where
  "text_dict r = (\<exists>d s. r = Inr d \<and> map_of d ''summary'' = Some (SummaryStr s))"

subsection \<open>Notions used in the statements\<close>

text \<open>The three gates of the diarization stage.\<close>

definition gates_pass :: "env \<Rightarrow> state \<Rightarrow> bool" where
  "gates_pass env st =
     (token_configured env \<and>
      (\<exists>l. segments (res st) = Some (SegList l) \<and> 5 \<le> length l \<and> 10 \<le> total_audio_duration l))"

text \<open>Past the gate the function is the composition of the three stages and the save.\<close>

definition stages :: "env \<Rightarrow> state \<Rightarrow> state" where
  "stages env st = run_summarization env (run_topic_detection env (speaker_diarization env st))"

section \<open>Chunked and unchunked processing side by side\<close>

text \<open>A segment and a turn moved by \<open>off\<close> seconds.\<close>

definition shift_seg :: "real \<Rightarrow> segment \<Rightarrow> segment" where
  "shift_seg off s = s\<lparr>seg_start := seg_start s + off, seg_end := seg_end s + off\<rparr>"

definition shift_turn :: "real \<Rightarrow> turn \<Rightarrow> turn" where
  "shift_turn off t = t\<lparr>turn_start := turn_start t + off, turn_end := turn_end t + off\<rparr>"

text \<open>The sweep of the merge pass over a list that is sorted already.\<close>

definition sweep_list :: "real \<Rightarrow> segment list \<Rightarrow> segment list" where
  "sweep_list c zs = (case zs of [] \<Rightarrow> [] | z # zs' \<Rightarrow> merge_sweep c [] z zs')"

text \<open>
  Two segments with the same times and the same duration, the identity of the second being
  the image of the identity of the first under a renaming \<open>\<rho>\<close>. The confidence plays no
  part in the speaking times and is left free.
\<close>

definition related :: "(speaker_id \<Rightarrow> speaker_id) \<Rightarrow> segment \<Rightarrow> segment \<Rightarrow> bool" where
  "related \<rho> a b =
     (seg_start b = seg_start a \<and> seg_end b = seg_end a \<and> duration b = duration a
      \<and> speaker b = \<rho> (speaker a))"

text \<open>No segment of a later block starts before a segment of an earlier block.\<close>

fun blocks_ordered :: "segment list list \<Rightarrow> bool" where
  "blocks_ordered [] = True"
| "blocks_ordered (b # bs) =
     ((\<forall>x\<in>set b. \<forall>y\<in>set (concat bs). seg_start x \<le> seg_start y) \<and> blocks_ordered bs)"

text \<open>
  The renaming that \<^verbatim>\<open>speaker_mapping\<close> stands for: \<^verbatim>\<open>speaker_mapping[original_speaker]\<close>
  where the key is present. The mapping is built first-seen: distinct keys, and the values
  \<^verbatim>\<open>"Speaker 1"\<close>, \<^verbatim>\<open>"Speaker 2"\<close>, ... in the order of insertion. \<open>mapped m xs ys\<close>: the
  segments \<open>ys\<close> are the segments \<open>xs\<close> renamed by \<open>m\<close>, and \<open>m\<close> knows every identity
  of \<open>xs\<close>.
\<close>

definition global_identity :: "speaker_mapping \<Rightarrow> speaker_id \<Rightarrow> speaker_id" where
  "global_identity m s = (case map_of m s of Some g \<Rightarrow> g | None \<Rightarrow> s)"

definition first_seen :: "speaker_mapping \<Rightarrow> bool" where
  "first_seen m =
     (distinct (map fst m) \<and> map snd m = map (\<lambda>i. Speaker (i + 1)) [0..<length m])"

definition mapped :: "speaker_mapping \<Rightarrow> segment list \<Rightarrow> segment list \<Rightarrow> bool" where
  "mapped m xs ys =
     (list_all2 (related (global_identity m)) xs ys \<and> speaker ` set xs \<subseteq> fst ` set m)"

text \<open>
  The indices of the chunks that the loop reaches before the \<^verbatim>\<open>break\<close>
  (\<^verbatim>\<open>start_ms < len(audio)\<close>). \<open>whole_recording\<close> is the input of the comparison with
  unchunked processing: the turns that the pipeline returns for these chunks, each chunk's
  turns moved to the start of the chunk, with the labels they have. It is what the pipeline
  answers on the whole file when it hears the same turns under the same labels.
\<close>

definition processed_chunks :: "nat \<Rightarrow> nat \<Rightarrow> nat list" where
  "processed_chunks len chunk_duration =
     filter (\<lambda>i. i * chunk_duration * 1000 < len) [0..<chunk_count len chunk_duration]"

definition whole_recording :: "(nat \<Rightarrow> turn list) \<Rightarrow> nat \<Rightarrow> nat \<Rightarrow> turn list" where
  "whole_recording chunks len chunk_duration =
     concat (map (\<lambda>i. map (shift_turn (real (i * chunk_duration))) (chunks i))
               (processed_chunks len chunk_duration))"

text \<open>
  The segments of the chunks \<open>js\<close> at their place in the recording, before the renaming:
  as \<^verbatim>\<open>_process_diarization_results\<close> returns them (\<open>chunk_blocks\<close>), before its
  confidence loop (\<open>merged_blocks\<close>) and before its merge pass (\<open>raw_blocks\<close>).
\<close>

definition chunk_blocks ::
  "(nat \<Rightarrow> turn list) \<Rightarrow> (nat \<Rightarrow> nat \<Rightarrow> real) \<Rightarrow> nat \<Rightarrow> nat \<Rightarrow> nat list \<Rightarrow> segment list" where
  "chunk_blocks chunks jit len cd js =
     concat (map (\<lambda>j. map (shift_seg (real (j * cd)))
                         (process_diarization_results (jit j) (chunks j)))
               (filter (\<lambda>j. j * cd * 1000 < len) js))"

definition merged_blocks :: "(nat \<Rightarrow> turn list) \<Rightarrow> nat \<Rightarrow> nat list \<Rightarrow> segment list list" where
  "merged_blocks chunks cd js =
     map (\<lambda>j. map (shift_seg (real (j * cd))) (merge_pass collar (map raw_segment (chunks j)))) js"

definition raw_blocks :: "(nat \<Rightarrow> turn list) \<Rightarrow> nat \<Rightarrow> nat list \<Rightarrow> segment list list" where
  "raw_blocks chunks cd js =
     map (\<lambda>j. map raw_segment (map (shift_turn (real (j * cd))) (chunks j))) js"

section \<open>Concrete inputs\<close>

text \<open>Two speakers talking over each other, and a speaker resuming after a short pause.\<close>

definition seg_a :: segment where
  "seg_a = \<lparr>seg_start = 0, seg_end = 5, speaker = Speaker 1, duration = 5, confidence = None\<rparr>"

definition seg_b :: segment where
  "seg_b = \<lparr>seg_start = 3, seg_end = 8, speaker = Speaker 2, duration = 5, confidence = None\<rparr>"

definition seg_c :: segment where
  "seg_c = \<lparr>seg_start = 51 / 10, seg_end = 7, speaker = Speaker 1, duration = 19 / 10,
            confidence = None\<rparr>"

definition seg_d :: segment where
  "seg_d = \<lparr>seg_start = 15 / 2, seg_end = 9, speaker = Speaker 2, duration = 3 / 2,
            confidence = None\<rparr>"

definition turn_a :: turn where
  "turn_a = \<lparr>turn_start = 0, turn_end = 5, turn_label = 0\<rparr>"

definition five_segments :: "seg_item list" where
  "five_segments =
     [TranscriptSeg \<lparr>ts_start = 0, ts_end = Some 2, ts_text = ''Welcome back.''\<rparr>,
      TranscriptSeg \<lparr>ts_start = 2, ts_end = Some 5, ts_text = ''Today we talk about rivers.''\<rparr>,
      TranscriptSeg \<lparr>ts_start = 5, ts_end = Some 7, ts_text = ''Why rivers?''\<rparr>,
      TranscriptSeg \<lparr>ts_start = 7, ts_end = Some 10, ts_text = ''They move.''\<rparr>,
      TranscriptSeg \<lparr>ts_start = 10, ts_end = Some 12, ts_text = ''Thanks.''\<rparr>]"

definition no_pipeline :: diarizer where
  "no_pipeline =
     \<lparr>pipeline_loaded = False, audio_length = Inr 12000, run_pipeline = Inr [],
      run_chunk = (\<lambda>i. Inr []), jitter = (\<lambda>i. 0), chunk_jitter = (\<lambda>i j. 0), cleanup = None\<rparr>"

definition env_ok :: env where
  "env_ok =
     \<lparr>file_path = ''uploads/ep1.mp3'', file_basename = ''ep1.mp3'', given_metadata = None,
      HF_ACCESS_TOKEN = Some ''hf_token'', audio_processor_init = None,
      unbound_local_error = Exception ''local variable referenced before assignment'',
      extract_metadata = Inr [(''duration'', ''12.0'')],
      transcriber_init = Inr \<lparr>mock_mode = False, truthy = True\<rparr>,
      transcribe = Inr (TranscriptDict (Some (Text ''Welcome back. Today we talk about rivers.''))
                          (Some (SegList five_segments))),
      diarize_call = Inr (DiarList (diarize no_pipeline None False None)),
      diarization_timer_fired = False,
      detect_topics = Inr (TopicList [''rivers'']), topics_timer_fired = False,
      extractive_summarize = Inr (SummaryDict (Some (SummaryList [''Today we talk about rivers.'']))),
      abstractive_summarize = Inr (SummaryDict (Some (SummaryStr ''A talk about rivers.''))),
      summarization_timer_fired = False,
      write_file = (\<lambda>r. None)\<rparr>"

definition env_empty_transcript :: env where
  "env_empty_transcript =
     env_ok\<lparr>transcribe := Inr (TranscriptDict (Some (Text [])) (Some (SegList [])))\<rparr>"

definition env_transcribe_fails :: env where
  "env_transcribe_fails = env_ok\<lparr>transcribe := Inl (Exception ''ffmpeg not found'')\<rparr>"

definition env_disk_full :: env where
  "env_disk_full = env_ok\<lparr>write_file := (\<lambda>r. Some (Exception ''No space left on device''))\<rparr>"

definition env_not_serializable :: env where
  "env_not_serializable =
     env_ok\<lparr>write_file := (\<lambda>r. if status r = ''completed''
        then Some (Exception ''Object of type float32 is not JSON serializable'') else None)\<rparr>"

definition seg_minute :: segment where
  "seg_minute = \<lparr>seg_start = 0, seg_end = 60, speaker = Speaker 1, duration = 60,
                 confidence = Some (9 / 10)\<rparr>"

text \<open>A summarizer without sumy and one whose model does not load.\<close>

definition plain_re :: regex_lib where
  "plain_re =
     \<lparr>sub_speaker_labels = Inr, sub_timestamps = Inr, split_sentences = (\<lambda>s. Inr [s])\<rparr>"

definition no_sumy :: extractive_summarizer where
  "no_sumy =
     \<lparr>SUMY_AVAILABLE = False, sentence_count = 20, extractive_re = plain_re,
      text_rank = (\<lambda>t n. SumyLookupError)\<rparr>"

definition no_model :: abstractive_summarizer where
  "no_model =
     \<lparr>model_available = True, max_length = 512, abstractive_re = plain_re,
      generate = (\<lambda>t n. Inl (Exception ''model not loaded''))\<rparr>"

text \<open>One piece of a monologue, as the pipeline returns it for a chunk of 4 seconds.\<close>

definition monologue_piece :: turn where
  "monologue_piece = \<lparr>turn_start = 0, turn_end = 4, turn_label = 0\<rparr>"

text \<open>
  A recording of 120 s in chunks of 60 s. The pipeline hears its speaker 01 in the first
  chunk (5 s) and its speaker 00 in the second chunk (10 s, from 40 s to 50 s of the chunk).
  \<open>swapped_recording\<close> is the same recording as one piece.
\<close>

definition swapped_chunks :: "nat \<Rightarrow> turn list" where
  "swapped_chunks i =
     (if i = 0 then [\<lparr>turn_start = 0, turn_end = 5, turn_label = 1\<rparr>]
      else if i = 1 then [\<lparr>turn_start = 40, turn_end = 50, turn_label = 0\<rparr>]
      else [])"

definition swapped_recording :: "turn list" where
  "swapped_recording =
     [\<lparr>turn_start = 0, turn_end = 5, turn_label = 1\<rparr>,
      \<lparr>turn_start = 100, turn_end = 110, turn_label = 0\<rparr>]"

section \<open>The merge pass\<close>

lemma merge_sweep_acc: "merge_sweep c merged cur xs = merged @ merge_sweep c [] cur xs"
proof (induction xs arbitrary: merged cur)
  case Nil
  show ?case by simp
next
  case (Cons n ns)
  show ?case
  proof (cases "mergeable c cur n")
    case True
    let ?cur = "cur\<lparr>seg_end := seg_end n, duration := round2 (seg_end n - seg_start cur)\<rparr>"
    have "merge_sweep c merged cur (n # ns) = merge_sweep c merged ?cur ns"
      using True by simp
    also have "\<dots> = merged @ merge_sweep c [] ?cur ns" by (rule Cons.IH)
    also have "merge_sweep c [] ?cur ns = merge_sweep c [] cur (n # ns)"
      using True by simp
    finally show ?thesis .
  next
    case False
    have "merge_sweep c merged cur (n # ns) = merge_sweep c (merged @ [cur]) n ns"
      using False by simp
    also have "\<dots> = (merged @ [cur]) @ merge_sweep c [] n ns" by (rule Cons.IH)
    also have "\<dots> = merged @ ([cur] @ merge_sweep c [] n ns)" by simp
    also have "[cur] @ merge_sweep c [] n ns = merge_sweep c ([] @ [cur]) n ns"
      using Cons.IH [of "[cur]" n] by simp
    also have "\<dots> = merge_sweep c [] cur (n # ns)"
      using False by simp
    finally show ?thesis .
  qed
qed

lemma merge_sweep_Cons:
  "merge_sweep c [] cur (n # ns) =
     (if mergeable c cur n
      then merge_sweep c [] (cur\<lparr>seg_end := seg_end n, duration := round2 (seg_end n - seg_start cur)\<rparr>) ns
      else cur # merge_sweep c [] n ns)"
  using merge_sweep_acc [of c "[cur]" n ns] by simp

lemma merge_sweep_Nil: "merge_sweep c [] cur [] = [cur]"
  by simp

declare merge_sweep.simps [simp del]
declare merge_sweep_Nil [simp]
declare merge_sweep_Cons [simp]

lemma merge_sweep_head:
  "\<exists>h t. merge_sweep c [] cur xs = h # t \<and> seg_start h = seg_start cur \<and> speaker h = speaker cur"
proof (induction xs arbitrary: cur)
  case Nil
  show ?case by simp
next
  case (Cons n ns)
  show ?case
  proof (cases "mergeable c cur n")
    case True
    then show ?thesis
      using Cons.IH [of "cur\<lparr>seg_end := seg_end n, duration := round2 (seg_end n - seg_start cur)\<rparr>"]
      by simp
  next
    case False
    then show ?thesis by simp
  qed
qed

lemma merge_sweep_sorted:
  "sorted (map seg_start (cur # xs)) \<Longrightarrow> sorted (map seg_start (merge_sweep c [] cur xs))"
proof (induction xs arbitrary: cur)
  case Nil
  show ?case by simp
next
  case (Cons n ns)
  show ?case
  proof (cases "mergeable c cur n")
    case True
    let ?cur = "cur\<lparr>seg_end := seg_end n, duration := round2 (seg_end n - seg_start cur)\<rparr>"
    from Cons.prems have "sorted (map seg_start (?cur # ns))" by auto
    then show ?thesis using True Cons.IH [of ?cur] by simp
  next
    case False
    from Cons.prems have s: "sorted (map seg_start (n # ns))" and le: "seg_start cur \<le> seg_start n"
      by auto
    obtain h t where ht: "merge_sweep c [] n ns = h # t" "seg_start h = seg_start n"
      using merge_sweep_head [of c n ns] by blast
    from Cons.IH [OF s] ht le have "sorted (map seg_start (cur # h # t))" by auto
    then show ?thesis using False ht by simp
  qed
qed

lemma merge_sweep_unmergeable:
  "adjacent (\<lambda>a b. \<not> mergeable c a b) (merge_sweep c [] cur xs)"
proof (induction xs arbitrary: cur)
  case Nil
  show ?case by simp
next
  case (Cons n ns)
  show ?case
  proof (cases "mergeable c cur n")
    case True
    then show ?thesis using Cons.IH by simp
  next
    case False
    obtain h t where ht: "merge_sweep c [] n ns = h # t" "seg_start h = seg_start n" "speaker h = speaker n"
      using merge_sweep_head [of c n ns] by blast
    have "\<not> mergeable c cur h" using False ht by (simp add: mergeable_def)
    then show ?thesis using False ht Cons.IH [of n] by simp
  qed
qed

lemma merge_sweep_fixed:
  "adjacent (\<lambda>a b. \<not> mergeable c a b) (cur # xs) \<Longrightarrow> merge_sweep c [] cur xs = cur # xs"
  by (induction xs arbitrary: cur) simp_all

lemma merge_pass_sorted: "sorted (map seg_start (merge_pass c segs))"
proof (cases "sort_key seg_start segs")
  case Nil
  then show ?thesis by (simp add: merge_pass_def)
next
  case (Cons s rest)
  have "sorted (map seg_start (sort_key seg_start segs))" by simp
  then have "sorted (map seg_start (s # rest))" using Cons by simp
  then show ?thesis using Cons merge_sweep_sorted [of s rest c] by (simp add: merge_pass_def)
qed

lemma merge_pass_unmergeable: "adjacent (\<lambda>a b. \<not> mergeable c a b) (merge_pass c segs)"
  by (cases "sort_key seg_start segs") (simp_all add: merge_pass_def merge_sweep_unmergeable)

lemma merge_pass_fixed: "merge_pass c (merge_pass c segs) = merge_pass c segs"
proof (cases "merge_pass c segs")
  case Nil
  then show ?thesis by (simp add: merge_pass_def)
next
  case (Cons s rest)
  have "sort_key seg_start (merge_pass c segs) = merge_pass c segs"
    by (rule sort_key_id_if_sorted) (rule merge_pass_sorted)
  moreover have "adjacent (\<lambda>a b. \<not> mergeable c a b) (s # rest)"
    using merge_pass_unmergeable [of c segs] Cons by simp
  ultimately show ?thesis
    using Cons merge_sweep_fixed [of c s rest] by (simp add: merge_pass_def [of c "s # rest"])
qed

lemma adjacent_Cons_cong:
  "(\<And>y. P x y = P x' y) \<Longrightarrow> adjacent P (x # xs) = adjacent P (x' # xs)"
  by (cases xs) simp_all

lemma adjacent_tl: "adjacent P (x # xs) \<Longrightarrow> adjacent P xs"
  by (cases xs) simp_all

lemma merge_sweep_no_overlap:
  "adjacent (\<lambda>a b. seg_end a \<le> seg_start b) (cur # xs) \<Longrightarrow>
     adjacent (\<lambda>a b. seg_end a \<le> seg_start b) (merge_sweep c [] cur xs)"
proof (induction xs arbitrary: cur)
  case Nil
  show ?case by simp
next
  case (Cons n ns)
  from Cons.prems have tl: "adjacent (\<lambda>a b. seg_end a \<le> seg_start b) (n # ns)"
    and le: "seg_end cur \<le> seg_start n" by simp_all
  show ?case
  proof (cases "mergeable c cur n")
    case True
    let ?cur = "cur\<lparr>seg_end := seg_end n, duration := round2 (seg_end n - seg_start cur)\<rparr>"
    have "adjacent (\<lambda>a b. seg_end a \<le> seg_start b) (?cur # ns) =
          adjacent (\<lambda>a b. seg_end a \<le> seg_start b) (n # ns)"
      by (rule adjacent_Cons_cong) simp
    then show ?thesis using True tl Cons.IH [of ?cur] by simp
  next
    case False
    obtain h t where ht: "merge_sweep c [] n ns = h # t" "seg_start h = seg_start n"
      using merge_sweep_head [of c n ns] by blast
    then show ?thesis using False le Cons.IH [OF tl] by simp
  qed
qed

lemma adjacent_mono:
  "(\<And>a b. P a b \<Longrightarrow> Q a b) \<Longrightarrow> adjacent P xs \<Longrightarrow> adjacent Q xs"
  by (induction P xs rule: adjacent.induct) simp_all


text \<open>
  C6: the merge pass is idempotent: run on its own output it returns that output, and no
  two consecutive segments of the output share a speaker with a gap of at most the collar.
\<close>

theorem merge_pass_idempotent:
  "merge_pass collar (merge_pass collar segs) = merge_pass collar segs
   \<and> adjacent (\<lambda>a b. \<not> (speaker b = speaker a \<and> seg_start b - seg_end a \<le> 15 / 100))
       (merge_pass collar segs)"
proof
  show "merge_pass collar (merge_pass collar segs) = merge_pass collar segs"
    by (rule merge_pass_fixed)
next
  have "\<And>a b. \<not> mergeable collar a b \<Longrightarrow>
      \<not> (speaker b = speaker a \<and> seg_start b - seg_end a \<le> 15 / 100)"
    by (simp add: mergeable_def collar_def)
  from adjacent_mono [where P = "\<lambda>a b. \<not> mergeable collar a b", OF this merge_pass_unmergeable]
  show "adjacent (\<lambda>a b. \<not> (speaker b = speaker a \<and> seg_start b - seg_end a \<le> 15 / 100))
       (merge_pass collar segs)" .
qed

theorem merge_pass_idempotent_witness:
  "merge_pass collar (merge_pass collar [seg_c, seg_d, seg_a])
     = [seg_a\<lparr>seg_end := 7, duration := 7\<rparr>, seg_d]"
proof -
  have e: "merge_pass collar [seg_c, seg_d, seg_a] = [seg_a\<lparr>seg_end := 7, duration := 7\<rparr>, seg_d]"
    by (simp add: merge_pass_def seg_a_def seg_c_def seg_d_def mergeable_def collar_def
        round2_def py_round_def Let_def)
  show ?thesis using merge_pass_idempotent [of "[seg_c, seg_d, seg_a]"] e by simp
qed

text \<open>
  C3, as the code has it: the output of the merge pass is sorted by start time; two
  consecutive segments of the same speaker are more than the collar apart, so they do not
  overlap; and when no two consecutive turns of the sorted input overlap, no two
  consecutive segments of the output do. Nothing separates overlapping turns of different
  speakers.
\<close>

theorem merge_pass_sorted_same_speaker_apart:
  "sorted (map seg_start (merge_pass collar segs))
   \<and> adjacent (\<lambda>a b. speaker a = speaker b \<longrightarrow> seg_end a + collar < seg_start b \<and> seg_end a \<le> seg_start b)
       (merge_pass collar segs)
   \<and> (adjacent (\<lambda>a b. seg_end a \<le> seg_start b) (sort_key seg_start segs)
        \<longrightarrow> adjacent (\<lambda>a b. seg_end a \<le> seg_start b) (merge_pass collar segs))"
proof (intro conjI impI)
  show "sorted (map seg_start (merge_pass collar segs))" by (rule merge_pass_sorted)
next
  have "\<And>a b. \<not> mergeable collar a b \<Longrightarrow>
      speaker a = speaker b \<longrightarrow> seg_end a + collar < seg_start b \<and> seg_end a \<le> seg_start b"
    by (auto simp: mergeable_def collar_def)
  from adjacent_mono [where P = "\<lambda>a b. \<not> mergeable collar a b", OF this merge_pass_unmergeable]
  show "adjacent (\<lambda>a b. speaker a = speaker b \<longrightarrow> seg_end a + collar < seg_start b \<and> seg_end a \<le> seg_start b)
       (merge_pass collar segs)" .
next
  assume a: "adjacent (\<lambda>a b. seg_end a \<le> seg_start b) (sort_key seg_start segs)"
  show "adjacent (\<lambda>a b. seg_end a \<le> seg_start b) (merge_pass collar segs)"
  proof (cases "sort_key seg_start segs")
    case Nil
    then show ?thesis by (simp add: merge_pass_def)
  next
    case (Cons s rest)
    then show ?thesis using a merge_sweep_no_overlap [of s rest collar] by (simp add: merge_pass_def)
  qed
qed


theorem merge_pass_sorted_same_speaker_apart_witness:
  "sorted (map seg_start (merge_pass collar [seg_c, seg_d, seg_a]))
   \<and> adjacent (\<lambda>a b. seg_end a \<le> seg_start b) (merge_pass collar [seg_c, seg_d, seg_a])"
proof -
  have "adjacent (\<lambda>a b. seg_end a \<le> seg_start b) (sort_key seg_start [seg_c, seg_d, seg_a])"
    by (simp add: seg_a_def seg_c_def seg_d_def)
  then show ?thesis
    using merge_pass_sorted_same_speaker_apart [of "[seg_c, seg_d, seg_a]"] by simp
qed

text \<open>
  C3 as stated fails: two turns of different speakers that overlap are both kept, and the
  first ends after the second starts.
\<close>

theorem merge_pass_overlap_counterexample:
  "\<not> adjacent (\<lambda>a b. seg_end a \<le> seg_start b) (merge_pass collar [seg_a, seg_b])"
  by (simp add: merge_pass_def seg_a_def seg_b_def mergeable_def)

section \<open>Confidence\<close>

lemma py_round_ge: "of_int a \<le> y \<Longrightarrow> a \<le> py_round y"
proof -
  assume "of_int a \<le> y"
  then have "a \<le> \<lfloor>y\<rfloor>" by (simp add: le_floor_iff)
  then show ?thesis by (simp add: py_round_def Let_def)
qed

lemma py_round_le: "y \<le> of_int b \<Longrightarrow> py_round y \<le> b"
proof -
  assume yb: "y \<le> of_int b"
  then have fb: "\<lfloor>y\<rfloor> \<le> b" by (simp add: floor_le_iff)
  show ?thesis
  proof (cases "y - of_int \<lfloor>y\<rfloor> < 1 / 2")
    case True
    then show ?thesis using fb by (simp add: py_round_def Let_def)
  next
    case False
    then have "of_int \<lfloor>y\<rfloor> < y" by simp
    then have "of_int \<lfloor>y\<rfloor> < (of_int b :: real)" using yb by linarith
    then have "\<lfloor>y\<rfloor> < b" by simp
    then show ?thesis by (simp add: py_round_def Let_def)
  qed
qed

lemma round2_bounds:
  assumes "of_int a / 100 \<le> x" and "x \<le> of_int b / 100"
  shows "of_int a / 100 \<le> round2 x \<and> round2 x \<le> of_int b / 100"
proof -
  have "of_int a \<le> x * 100" using assms(1) by simp
  then have 1: "a \<le> py_round (x * 100)" by (rule py_round_ge)
  have "x * 100 \<le> of_int b" using assms(2) by simp
  then have 2: "py_round (x * 100) \<le> b" by (rule py_round_le)
  from 1 have "(of_int a :: real) \<le> of_int (py_round (x * 100))" by simp
  moreover from 2 have "(of_int (py_round (x * 100)) :: real) \<le> of_int b" by simp
  ultimately show ?thesis by (simp add: round2_def divide_right_mono)
qed

lemma base_confidence_range: "6 / 10 \<le> base_confidence d \<and> base_confidence d \<le> 9 / 10"
  by (simp add: base_confidence_def)

lemma segment_confidence_range:
  assumes "\<bar>j\<bar> \<le> 1 / 10"
  shows "1 / 2 \<le> segment_confidence d j \<and> segment_confidence d j \<le> 1"
proof -
  have "of_int 50 / 100 \<le> base_confidence d + j" "base_confidence d + j \<le> of_int 100 / 100"
    using assms base_confidence_range [of d] by auto
  from round2_bounds [OF this] show ?thesis by (simp add: segment_confidence_def)
qed

lemma assign_confidence_length: "length (assign_confidence jit k ss) = length ss"
  by (induction ss arbitrary: k) simp_all

lemma assign_confidence_nth:
  "i < length ss \<Longrightarrow>
     assign_confidence jit k ss ! i =
       (ss ! i)\<lparr>confidence := Some (segment_confidence (duration (ss ! i)) (jit (k + i)))\<rparr>"
proof (induction ss arbitrary: k i)
  case Nil
  then show ?case by simp
next
  case (Cons s ss)
  show ?case
  proof (cases i)
    case 0
    then show ?thesis by simp
  next
    case (Suc m)
    then have "m < length ss" using Cons.prems by simp
    from Cons.IH [OF this, of "Suc k"] Suc show ?thesis by simp
  qed
qed


text \<open>
  On the path without chunks the confidence follows the duration: every segment that
  \<^verbatim>\<open>_process_diarization_results\<close> returns carries
  \<^verbatim>\<open>round(min(0.9, max(0.6, duration / 10)) + jitter, 2)\<close>, and whatever jitter of magnitude
  at most 0.1 is drawn, that confidence lies between 0 and 1.
\<close>

lemma unchunked_confidence:
  assumes "\<forall>i. \<bar>jit i\<bar> \<le> 1 / 10"
    and "i < length (process_diarization_results jit turns)"
  shows "\<exists>c. confidence (process_diarization_results jit turns ! i) = Some c
           \<and> c = round2 (min (9 / 10) (max (6 / 10)
                   (duration (process_diarization_results jit turns ! i) / 10)) + jit i)
           \<and> 0 \<le> c \<and> c \<le> 1"
proof -
  let ?m = "merge_pass collar (map raw_segment turns)"
  have len: "i < length ?m"
    using assms(2) by (simp add: process_diarization_results_def assign_confidence_length)
  have nth: "process_diarization_results jit turns ! i =
      (?m ! i)\<lparr>confidence := Some (segment_confidence (duration (?m ! i)) (jit i))\<rparr>"
    using assign_confidence_nth [OF len, of jit 0] by (simp add: process_diarization_results_def)
  have "\<bar>jit i\<bar> \<le> 1 / 10" using assms(1) by simp
  from segment_confidence_range [OF this, of "duration (?m ! i)"] nth
  show ?thesis by (simp add: segment_confidence_def base_confidence_def)
qed


lemma unchunked_confidence_one_turn:
  "confidence (process_diarization_results (\<lambda>i. 1 / 10) [turn_a] ! 0) = Some (7 / 10)"
proof -
  have "\<forall>i::nat. \<bar>1 / 10 :: real\<bar> \<le> 1 / 10" by simp
  moreover have e: "process_diarization_results (\<lambda>i. 1 / 10) [turn_a] =
      [\<lparr>seg_start = 0, seg_end = 5, speaker = Speaker 1, duration = 5,
        confidence = Some (7 / 10)\<rparr>]"
    by (simp add: process_diarization_results_def merge_pass_def raw_segment_def turn_a_def
        segment_confidence_def base_confidence_def round2_def py_round_def Let_def)
  ultimately show ?thesis
    using unchunked_confidence [of "\<lambda>i. 1 / 10" 0 "[turn_a]"] by simp
qed

lemma segment_confidence_8_range:
  assumes "\<bar>j\<bar> \<le> 1 / 10"
  shows "7 / 10 \<le> segment_confidence 8 j \<and> segment_confidence 8 j \<le> 9 / 10"
proof -
  have "of_int 70 / 100 \<le> base_confidence 8 + j" "base_confidence 8 + j \<le> of_int 90 / 100"
    using assms by (auto simp add: base_confidence_def)
  from round2_bounds [OF this] show ?thesis by (simp add: segment_confidence_def)
qed

text \<open>
  C9 on the chunked path: a monologue of 8 seconds cut into two chunks of 4 seconds, with
  the jitter \<^verbatim>\<open>-0.1\<close> drawn for both pieces. The final merge of \<^verbatim>\<open>_process_in_chunks\<close>
  joins the pieces and sets the duration to 8, but the segment keeps the confidence 0.5
  drawn for its first piece; at duration 8 the claimed value is at least 0.7 for every
  jitter.
\<close>

theorem chunk_remerge_keeps_first_confidence:
  "process_in_chunks (\<lambda>i. Inr [monologue_piece]) (\<lambda>i j. - (1 / 10)) 8000 4
     = [\<lparr>seg_start = 0, seg_end = 8, speaker = Speaker 1, duration = 8,
         confidence = Some (1 / 2)\<rparr>]
   \<and> segment_confidence 8 (- (1 / 10)) = 7 / 10"
proof
  have cc: "chunk_count 8000 4 = Suc (Suc (Suc 0))" by (simp add: chunk_count_def)
  have r: "round2 0 = 0" "round2 4 = 4" "round2 8 = 8"
    by (simp_all add: round2_def py_round_def Let_def)
  have c: "segment_confidence 4 (- (1 / 10)) = 1 / 2"
    by (simp add: segment_confidence_def base_confidence_def round2_def py_round_def Let_def)
  have p: "process_diarization_results (\<lambda>j. - (1 / 10)) [monologue_piece] =
      [\<lparr>seg_start = 0, seg_end = 4, speaker = Speaker 1, duration = 4, confidence = Some (1 / 2)\<rparr>]"
    by (simp add: process_diarization_results_def monologue_piece_def raw_segment_def
        merge_pass_def r c)
  have all: "fst (chunked_segments (\<lambda>i. Inr [monologue_piece]) (\<lambda>i j. - (1 / 10)) 8000 4) =
      [\<lparr>seg_start = 0, seg_end = 4, speaker = Speaker 1, duration = 4, confidence = Some (1 / 2)\<rparr>,
       \<lparr>seg_start = 4, seg_end = 8, speaker = Speaker 1, duration = 4, confidence = Some (1 / 2)\<rparr>]"
    by (simp add: chunked_segments_def cc p)
  show "process_in_chunks (\<lambda>i. Inr [monologue_piece]) (\<lambda>i j. - (1 / 10)) 8000 4
     = [\<lparr>seg_start = 0, seg_end = 8, speaker = Speaker 1, duration = 8,
         confidence = Some (1 / 2)\<rparr>]"
    by (simp add: process_in_chunks_def all merge_pass_def mergeable_def collar_def r)
  show "segment_confidence 8 (- (1 / 10)) = 7 / 10"
    by (simp add: segment_confidence_def base_confidence_def round2_def py_round_def Let_def)
qed

section \<open>The orchestrator\<close>

lemma invoked_call [simp]: "invoked (call c st) = invoked st @ [c]"
  and persisted_call [simp]: "persisted (call c st) = persisted st"
  and res_call [simp]: "res (call c st) = res st"
  by (simp_all add: call_def)

lemma init_audio_processor_frame:
  "set (invoked (init_audio_processor env st)) = insert AudioProcessorInit (set (invoked st))"
  "persisted (init_audio_processor env st) = persisted st"
  "status (res (init_audio_processor env st)) = status (res st)"
  "error (res (init_audio_processor env st)) = error (res st)"
  "job_id (res (init_audio_processor env st)) = job_id (res st)"
  "diarization (res (init_audio_processor env st)) = diarization (res st)"
  by (simp_all add: init_audio_processor_def split: option.split)

lemma extract_audio_metadata_frame:
  "set (invoked (extract_audio_metadata env st)) \<subseteq> insert ExtractMetadata (set (invoked st))"
  "persisted (extract_audio_metadata env st) = persisted st"
  "status (res (extract_audio_metadata env st)) = status (res st)"
  "error (res (extract_audio_metadata env st)) = error (res st)"
  "job_id (res (extract_audio_metadata env st)) = job_id (res st)"
  "diarization (res (extract_audio_metadata env st)) = diarization (res st)"
  by (auto simp add: extract_audio_metadata_def split: option.split sum.split)

lemma init_transcriber_frame:
  assumes "init_transcriber env st = Inl st' \<or> init_transcriber env st = Inr (t, st')"
  shows "set (invoked st') = insert TranscriberInit (set (invoked st))"
    and "persisted st' = persisted st"
    and "status (res st') = status (res st)"
    and "error (res st') = error (res st)"
    and "job_id (res st') = job_id (res st)"
    and "diarization (res st') = diarization (res st)"
  using assms
  by (auto simp add: init_transcriber_def split: sum.splits if_splits)

lemma init_transcriber_Inl:
  assumes "init_transcriber env st = Inl st'"
  shows "transcript (res st') = Some (Text ''Error: Transcription failed due to initialization error.'')"
  using assms by (auto simp add: init_transcriber_def split: sum.splits)

lemma set_transcript_frame [simp]:
  "invoked (set_transcript t sv st) = invoked st"
  "persisted (set_transcript t sv st) = persisted st"
  "status (res (set_transcript t sv st)) = status (res st)"
  "error (res (set_transcript t sv st)) = error (res st)"
  "job_id (res (set_transcript t sv st)) = job_id (res st)"
  "diarization (res (set_transcript t sv st)) = diarization (res st)"
  "transcript (res (set_transcript t sv st)) = Some t"
  "segments (res (set_transcript t sv st)) = Some sv"
  by (simp_all add: set_transcript_def)

lemma transcribe_audio_frame:
  "set (invoked (transcribe_audio env t st)) \<subseteq> insert Transcribe (set (invoked st))"
  "persisted (transcribe_audio env t st) = persisted st"
  "status (res (transcribe_audio env t st)) = status (res st)"
  "error (res (transcribe_audio env t st)) = error (res st)"
  "job_id (res (transcribe_audio env t st)) = job_id (res st)"
  "diarization (res (transcribe_audio env t st)) = diarization (res st)"
  by (auto simp add: transcribe_audio_def split: sum.split transcript_result.split)

lemma initial_state_facts [simp]:
  "invoked (initial_state jid) = []"
  "persisted (initial_state jid) = []"
  "status (res (initial_state jid)) = ''completed''"
  "error (res (initial_state jid)) = None"
  "job_id (res (initial_state jid)) = jid"
  "diarization (res (initial_state jid)) = None"
  by (simp_all add: initial_state_def initial_results_def)

lemma transcription_facts:
  assumes "transcription env jid = Inl st \<or> transcription env jid = Inr st"
  shows "set (invoked st) \<subseteq> {AudioProcessorInit, ExtractMetadata, TranscriberInit, Transcribe}"
    and "persisted st = []"
    and "status (res st) = ''completed''"
    and "error (res st) = None"
    and "job_id (res st) = jid"
    and "diarization (res st) = None"
proof -
  let ?s2 = "extract_audio_metadata env (init_audio_processor env (initial_state jid))"
  have s2: "set (invoked ?s2) \<subseteq> {AudioProcessorInit, ExtractMetadata}"
    "persisted ?s2 = []" "status (res ?s2) = ''completed''" "error (res ?s2) = None"
    "job_id (res ?s2) = jid" "diarization (res ?s2) = None"
    using extract_audio_metadata_frame(1) [of env "init_audio_processor env (initial_state jid)"]
    by (auto simp add: extract_audio_metadata_frame init_audio_processor_frame)
  from assms consider
    (l) "init_transcriber env ?s2 = Inl st"
  | (r) t st3 where "init_transcriber env ?s2 = Inr (t, st3)" "st = transcribe_audio env t st3"
    by (auto simp add: transcription_def split: sum.splits prod.splits)
  then have "set (invoked st) \<subseteq> {AudioProcessorInit, ExtractMetadata, TranscriberInit, Transcribe}
      \<and> persisted st = [] \<and> status (res st) = ''completed'' \<and> error (res st) = None
      \<and> job_id (res st) = jid \<and> diarization (res st) = None"
  proof cases
    case l
    then show ?thesis using s2 init_transcriber_frame [of env ?s2 st] by auto
  next
    case r
    then show ?thesis
      using s2 init_transcriber_frame [of env ?s2 st3 t]
        transcribe_audio_frame(1) [of env t st3]
      by (auto simp add: transcribe_audio_frame)
  qed
  then show "set (invoked st) \<subseteq> {AudioProcessorInit, ExtractMetadata, TranscriberInit, Transcribe}"
    and "persisted st = []"
    and "status (res st) = ''completed''"
    and "error (res st) = None"
    and "job_id (res st) = jid"
    and "diarization (res st) = None" by simp_all
qed

lemma set_diarization_frame [simp]:
  "invoked (set_diarization d st) = invoked st"
  "persisted (set_diarization d st) = persisted st"
  "status (res (set_diarization d st)) = status (res st)"
  "error (res (set_diarization d st)) = error (res st)"
  "job_id (res (set_diarization d st)) = job_id (res st)"
  "transcript (res (set_diarization d st)) = transcript (res st)"
  "segments (res (set_diarization d st)) = segments (res st)"
  "diarization (res (set_diarization d st)) = Some d"
  by (simp_all add: set_diarization_def)

lemma accept_diarization_frame [simp]:
  "invoked (accept_diarization r st) = invoked st"
  "persisted (accept_diarization r st) = persisted st"
  "status (res (accept_diarization r st)) = status (res st)"
  "error (res (accept_diarization r st)) = error (res st)"
  "job_id (res (accept_diarization r st)) = job_id (res st)"
  "transcript (res (accept_diarization r st)) = transcript (res st)"
  by (simp_all add: accept_diarization_def
      split: diar_result.split option.split segments_value.split)

lemma accept_diarization_segments:
  "segments (res (accept_diarization r st)) =
     (case r of
        DiarDict (Some (SegList l)) \<Rightarrow> if l \<noteq> [] then Some (SegList l) else segments (res st)
      | _ \<Rightarrow> segments (res st))"
  by (simp add: accept_diarization_def
      split: diar_result.split option.split segments_value.split)

lemma accept_diarization_field:
  "diarization (res (accept_diarization r st)) =
     Some (case r of DiarDict sv \<Rightarrow> DiarOutput sv
           | _ \<Rightarrow> DiarError ''Invalid diarization result format'')"
  by (simp add: accept_diarization_def
      split: diar_result.split option.split segments_value.split)

lemma run_diarization_frame [simp]:
  "invoked (run_diarization env st) = invoked st @ [Diarize]"
  "persisted (run_diarization env st) = persisted st"
  "status (res (run_diarization env st)) = status (res st)"
  "error (res (run_diarization env st)) = error (res st)"
  "job_id (res (run_diarization env st)) = job_id (res st)"
  "transcript (res (run_diarization env st)) = transcript (res st)"
  by (simp_all add: run_diarization_def split: sum.split exn.split)

lemma run_diarization_success:
  assumes "diarize_call env = Inr r" and "\<not> diarization_timer_fired env"
  shows "run_diarization env st = accept_diarization r (call Diarize st)"
  using assms by (simp add: run_diarization_def)

lemma speaker_diarization_frame [simp]:
  "persisted (speaker_diarization env st) = persisted st"
  "status (res (speaker_diarization env st)) = status (res st)"
  "error (res (speaker_diarization env st)) = error (res st)"
  "job_id (res (speaker_diarization env st)) = job_id (res st)"
  "transcript (res (speaker_diarization env st)) = transcript (res st)"
  by (simp_all add: speaker_diarization_def split: option.split)

lemma usable_segments_Some:
  "usable_segments r = Some l \<longleftrightarrow> segments r = Some (SegList l) \<and> l \<noteq> []"
  by (auto simp add: usable_segments_def split: option.splits segments_value.splits)

lemma gates_pass_run:
  assumes "gates_pass env st"
  shows "speaker_diarization env st = run_diarization env st"
proof -
  from assms obtain l where l: "token_configured env" "segments (res st) = Some (SegList l)"
    "5 \<le> length l" "10 \<le> total_audio_duration l"
    by (auto simp add: gates_pass_def)
  then have "l \<noteq> []" by auto
  with l have "usable_segments (res st) = Some l" by (simp add: usable_segments_Some)
  with l show ?thesis by (simp add: speaker_diarization_def)
qed

lemma gates_fail_skip:
  assumes "\<not> gates_pass env st"
  shows "invoked (speaker_diarization env st) = invoked st
     \<and> segments (res (speaker_diarization env st)) = segments (res st)
     \<and> (\<exists>reason. diarization (res (speaker_diarization env st)) = Some (DiarError reason))"
proof (cases "usable_segments (res st)")
  case None
  then show ?thesis by (simp add: speaker_diarization_def)
next
  case (Some l)
  then have seg: "segments (res st) = Some (SegList l)" by (simp add: usable_segments_Some)
  show ?thesis
  proof (cases "token_configured env")
    case False
    then show ?thesis using Some by (simp add: speaker_diarization_def)
  next
    case True
    with assms seg have "total_audio_duration l < 10 \<or> length l < 5"
      by (auto simp add: gates_pass_def)
    then show ?thesis using Some True by (simp add: speaker_diarization_def)
  qed
qed

lemma set_topics_frame [simp]:
  "invoked (set_topics ts st) = invoked st"
  "persisted (set_topics ts st) = persisted st"
  "status (res (set_topics ts st)) = status (res st)"
  "error (res (set_topics ts st)) = error (res st)"
  "job_id (res (set_topics ts st)) = job_id (res st)"
  "transcript (res (set_topics ts st)) = transcript (res st)"
  "segments (res (set_topics ts st)) = segments (res st)"
  "diarization (res (set_topics ts st)) = diarization (res st)"
  "topics (res (set_topics ts st)) = Some ts"
  by (simp_all add: set_topics_def)

lemma run_topic_detection_frame [simp]:
  "persisted (run_topic_detection env st) = persisted st"
  "status (res (run_topic_detection env st)) = status (res st)"
  "error (res (run_topic_detection env st)) = error (res st)"
  "job_id (res (run_topic_detection env st)) = job_id (res st)"
  "transcript (res (run_topic_detection env st)) = transcript (res st)"
  "segments (res (run_topic_detection env st)) = segments (res st)"
  "diarization (res (run_topic_detection env st)) = diarization (res st)"
  "\<exists>v. topics (res (run_topic_detection env st)) = Some v"
  "Diarize \<in> set (invoked (run_topic_detection env st)) \<longleftrightarrow> Diarize \<in> set (invoked st)"
  by (simp_all add: run_topic_detection_def split: sum.split topics_result.split)

lemma set_summaries_frame [simp]:
  "invoked (set_summaries a e st) = invoked st"
  "persisted (set_summaries a e st) = persisted st"
  "status (res (set_summaries a e st)) = status (res st)"
  "error (res (set_summaries a e st)) = error (res st)"
  "job_id (res (set_summaries a e st)) = job_id (res st)"
  "transcript (res (set_summaries a e st)) = transcript (res st)"
  "segments (res (set_summaries a e st)) = segments (res st)"
  "diarization (res (set_summaries a e st)) = diarization (res st)"
  "topics (res (set_summaries a e st)) = topics (res st)"
  "abstractive_summary (res (set_summaries a e st)) = Some a"
  "extractive_summary (res (set_summaries a e st)) = Some e"
  by (simp_all add: set_summaries_def)

lemma extractive_step_frame [simp]:
  "invoked (extractive_step env st) = invoked st @ [ExtractiveSummarize]"
  "persisted (extractive_step env st) = persisted st"
  "status (res (extractive_step env st)) = status (res st)"
  "error (res (extractive_step env st)) = error (res st)"
  "job_id (res (extractive_step env st)) = job_id (res st)"
  "transcript (res (extractive_step env st)) = transcript (res st)"
  "segments (res (extractive_step env st)) = segments (res st)"
  "diarization (res (extractive_step env st)) = diarization (res st)"
  "topics (res (extractive_step env st)) = topics (res st)"
  "\<exists>v. extractive_summary (res (extractive_step env st)) = Some v"
  by (simp_all add: extractive_step_def)

lemma abstractive_step_frame [simp]:
  "invoked (abstractive_step env st) = invoked st @ [AbstractiveSummarize]"
  "persisted (abstractive_step env st) = persisted st"
  "status (res (abstractive_step env st)) = status (res st)"
  "error (res (abstractive_step env st)) = error (res st)"
  "job_id (res (abstractive_step env st)) = job_id (res st)"
  "transcript (res (abstractive_step env st)) = transcript (res st)"
  "segments (res (abstractive_step env st)) = segments (res st)"
  "diarization (res (abstractive_step env st)) = diarization (res st)"
  "topics (res (abstractive_step env st)) = topics (res st)"
  "extractive_summary (res (abstractive_step env st)) = extractive_summary (res st)"
  "\<exists>v. abstractive_summary (res (abstractive_step env st)) = Some v"
  by (simp_all add: abstractive_step_def)

lemma run_summarization_frame [simp]:
  "persisted (run_summarization env st) = persisted st"
  "status (res (run_summarization env st)) = status (res st)"
  "error (res (run_summarization env st)) = error (res st)"
  "job_id (res (run_summarization env st)) = job_id (res st)"
  "transcript (res (run_summarization env st)) = transcript (res st)"
  "segments (res (run_summarization env st)) = segments (res st)"
  "diarization (res (run_summarization env st)) = diarization (res st)"
  "topics (res (run_summarization env st)) = topics (res st)"
  "\<exists>v. extractive_summary (res (run_summarization env st)) = Some v"
  "\<exists>v. abstractive_summary (res (run_summarization env st)) = Some v"
  "Diarize \<in> set (invoked (run_summarization env st)) \<longleftrightarrow> Diarize \<in> set (invoked st)"
  by (simp_all add: run_summarization_def Let_def)

lemma valid_transcript_cong:
  "transcript r' = transcript r \<Longrightarrow> valid_transcript r' = valid_transcript r"
  by (simp add: valid_transcript_def)

lemma after_gate_valid:
  assumes "valid_transcript (res st) = Inr True"
  shows "after_gate env st = save_results env (stages env st)"
proof -
  let ?d = "speaker_diarization env st"
  have 1: "valid_transcript (res ?d) = Inr True"
    using assms valid_transcript_cong [of "res ?d" "res st"] by simp
  then have t: "topic_detection env ?d = (None, run_topic_detection env ?d)"
    by (simp add: topic_detection_def)
  have 2: "valid_transcript (res (run_topic_detection env ?d)) = Inr True"
    using 1 valid_transcript_cong [of "res (run_topic_detection env ?d)" "res ?d"] by simp
  then have s: "summarization env (run_topic_detection env ?d)
      = (None, run_summarization env (run_topic_detection env ?d))"
    by (simp add: summarization_def)
  show ?thesis by (simp add: after_gate_def t s stages_def)
qed

lemma stages_frame:
  "persisted (stages env st) = persisted st"
  "status (res (stages env st)) = status (res st)"
  "error (res (stages env st)) = error (res st)"
  "job_id (res (stages env st)) = job_id (res st)"
  "transcript (res (stages env st)) = transcript (res st)"
  "segments (res (stages env st)) = segments (res (speaker_diarization env st))"
  "diarization (res (stages env st)) = diarization (res (speaker_diarization env st))"
  "\<exists>v. topics (res (stages env st)) = Some v"
  "\<exists>v. extractive_summary (res (stages env st)) = Some v"
  "\<exists>v. abstractive_summary (res (stages env st)) = Some v"
  "Diarize \<in> set (invoked (stages env st)) \<longleftrightarrow> Diarize \<in> set (invoked (speaker_diarization env st))"
  by (simp_all add: stages_def)

lemma save_results_frame:
  "res (snd (save_results env st)) = res st"
  "invoked (snd (save_results env st)) = invoked st"
  "persisted (snd (save_results env st)) = (if write_file env (res st) = None then persisted st @ [res st] else persisted st)"
  "fst (save_results env st) = write_file env (res st)"
  by (simp_all add: save_results_def split: option.split)

lemma process_audio_file_frame:
  "res (snd (process_audio_file env jid)) = res (snd (main_sequence env jid))"
  "invoked (snd (process_audio_file env jid)) = invoked (snd (main_sequence env jid))"
  "fst (process_audio_file env jid) = None"
  by (simp_all add: process_audio_file_def split: prod.split option.split)

lemma main_sequence_valid:
  assumes "transcription env jid = Inr st" and "valid_transcript (res st) = Inr True"
  shows "main_sequence env jid = save_results env (stages env st)"
  using assms by (simp add: main_sequence_def after_gate_valid)

lemma main_sequence_stop:
  assumes "transcription env jid = Inl st
     \<or> transcription env jid = Inr st \<and> valid_transcript (res st) = Inr False"
  shows "main_sequence env jid = save_results env st"
  using assms by (auto simp add: main_sequence_def)

text \<open>
  C8: past the transcript gate, the diarizer is called exactly when a token is configured,
  the record holds a list of at least 5 segments and the largest \<^verbatim>\<open>end\<close> among them is at
  least 10 seconds; whenever it is not called, the \<^verbatim>\<open>diarization\<close> field of the record is
  an \<^verbatim>\<open>{"error": reason}\<close> object.
\<close>

theorem diarization_gates:
  assumes "transcription env jid = Inr st" and "valid_transcript (res st) = Inr True"
  shows "(Diarize \<in> set (invoked (snd (process_audio_file env jid))) \<longleftrightarrow>
            token_configured env \<and>
            (\<exists>l. segments (res st) = Some (SegList l) \<and> 5 \<le> length l
                 \<and> 10 \<le> total_audio_duration l))
       \<and> (Diarize \<notin> set (invoked (snd (process_audio_file env jid))) \<longrightarrow>
            (\<exists>reason. diarization (res (snd (process_audio_file env jid)))
                        = Some (DiarError reason)))"
proof -
  have before: "Diarize \<notin> set (invoked st)"
    using transcription_facts(1) [of env jid st] assms(1) by auto
  have out: "invoked (snd (process_audio_file env jid)) = invoked (stages env st)"
    "res (snd (process_audio_file env jid)) = res (stages env st)"
    using main_sequence_valid [OF assms]
    by (simp_all add: process_audio_file_frame save_results_frame)
  show ?thesis
  proof (cases "gates_pass env st")
    case True
    then have "Diarize \<in> set (invoked (stages env st))"
      by (simp add: stages_frame gates_pass_run)
    then show ?thesis using True out by (simp add: gates_pass_def)
  next
    case False
    from gates_fail_skip [OF False] before
    have "Diarize \<notin> set (invoked (stages env st))"
      and "\<exists>reason. diarization (res (stages env st)) = Some (DiarError reason)"
      by (simp_all add: stages_frame)
    then show ?thesis using False out by (simp add: gates_pass_def)
  qed
qed

lemma transcription_transcript:
  assumes "audio_processor_init env = None" "transcriber_init env = Inr t" "truthy t"
  shows "\<exists>st. transcription env jid = Inr st \<and>
           transcript (res st) = Some
             (case transcribe env of
                Inl e \<Rightarrow> Text (''Error: '' @ str e)
              | Inr (TranscriptDict txt segs) \<Rightarrow> (case txt of None \<Rightarrow> Text [] | Some v \<Rightarrow> v)
              | Inr (TranscriptStr s) \<Rightarrow> Text s
              | Inr (TranscriptOther ty) \<Rightarrow>
                  Text (''Error: Unexpected transcription result type: '' @ ty)) \<and>
           segments (res st) = Some
             (case transcribe env of
                Inr (TranscriptDict txt segs) \<Rightarrow> (case segs of None \<Rightarrow> SegList [] | Some v \<Rightarrow> v)
              | _ \<Rightarrow> SegList [])"
  using assms
  by (simp add: transcription_def init_transcriber_def transcribe_audio_def
      split: sum.split transcript_result.split)

lemma main_sequence_persisted:
  "persisted (snd (main_sequence env jid)) =
     (if fst (main_sequence env jid) = None then [res (snd (main_sequence env jid))] else [])"
proof (cases "transcription env jid")
  case (Inl st)
  then have "persisted st = []" using transcription_facts(2) [of env jid st] by simp
  then show ?thesis using main_sequence_stop [of env jid st] Inl
    by (simp add: save_results_frame)
next
  case (Inr st)
  then have p: "persisted st = []" using transcription_facts(2) [of env jid st] by simp
  show ?thesis
  proof (cases "valid_transcript (res st)")
    case (Inl e)
    then show ?thesis using Inr p by (simp add: main_sequence_def)
  next
    case v: (Inr b)
    show ?thesis
    proof (cases b)
      case True
      then show ?thesis using main_sequence_valid [of env jid st] Inr v p
        by (simp add: save_results_frame stages_frame)
    next
      case False
      then show ?thesis using main_sequence_stop [of env jid st] Inr v p
        by (simp add: save_results_frame)
    qed
  qed
qed

lemma process_audio_file_persisted:
  "persisted (snd (process_audio_file env jid)) =
     (case fst (main_sequence env jid) of
        None \<Rightarrow> [res (snd (main_sequence env jid))]
      | Some e \<Rightarrow> (if write_file env (error_record jid e) = None then [error_record jid e] else []))"
  using main_sequence_persisted [of env jid]
  by (auto simp add: process_audio_file_def split: prod.split option.split)

text \<open>
  C2, as the code has it: no exception leaves \<^verbatim>\<open>process_audio_file\<close>, and at most one record
  is persisted. When the statements of the outer \<^verbatim>\<open>try\<close> end normally it is the record they
  wrote; when an exception leaves them (a failed write of the full record included) it is
  the minimal record \<^verbatim>\<open>{job_id, status: "error", error: str(e)}\<close>, provided that write
  succeeds. When it fails too, the failure is logged and nothing is persisted. So exactly
  one record is persisted whenever every write succeeds.
\<close>

theorem at_most_one_artifact:
  "fst (process_audio_file env jid) = None
   \<and> persisted (snd (process_audio_file env jid)) =
       (case fst (main_sequence env jid) of
          None \<Rightarrow> [res (snd (main_sequence env jid))]
        | Some e \<Rightarrow>
            (if write_file env (error_record jid e) = None then [error_record jid e] else []))
   \<and> (\<forall>e. job_id (error_record jid e) = jid \<and> status (error_record jid e) = ''error''
          \<and> error (error_record jid e) = Some (str e))
   \<and> length (persisted (snd (process_audio_file env jid))) \<le> 1
   \<and> ((\<forall>r. write_file env r = None) \<longrightarrow> length (persisted (snd (process_audio_file env jid))) = 1)"
  by (simp add: process_audio_file_frame process_audio_file_persisted error_record_def
      split: option.split)

lemma env_ok_simps [simp]:
  "audio_processor_init env_ok = None"
  "transcriber_init env_ok = Inr \<lparr>mock_mode = False, truthy = True\<rparr>"
  "transcribe env_ok = Inr (TranscriptDict (Some (Text ''Welcome back. Today we talk about rivers.''))
                          (Some (SegList five_segments)))"
  "diarize_call env_ok = Inr (DiarList (diarize no_pipeline None False None))"
  "diarization_timer_fired env_ok = False"
  "write_file env_ok = (\<lambda>r. None)"
  "HF_ACCESS_TOKEN env_ok = Some ''hf_token''"
  by (simp_all add: env_ok_def)

lemma main_sequence_write_fails:
  assumes "\<And>r. status r = ''completed'' \<Longrightarrow> write_file env r = Some e"
    and "audio_processor_init env = None" "transcriber_init env = Inr t" "truthy t"
    and "transcribe env = Inr (TranscriptDict (Some (Text s)) segs)"
  shows "fst (main_sequence env jid) = Some e"
proof -
  from transcription_transcript [OF assms(2-4), of jid] assms(5)
  obtain st where st: "transcription env jid = Inr st" "transcript (res st) = Some (Text s)"
    by auto
  have c: "status (res st) = ''completed''" using transcription_facts(3) [of env jid st] st by simp
  show ?thesis
  proof (cases "s \<noteq> [] \<and> \<not> prefix ''Error:'' s")
    case True
    then have "valid_transcript (res st) = Inr True" using st by (simp add: valid_transcript_def)
    from main_sequence_valid [OF st(1) this] c assms(1) [of "res (stages env st)"]
    show ?thesis by (simp add: save_results_frame stages_frame)
  next
    case False
    then have "valid_transcript (res st) = Inr False" using st by (auto simp add: valid_transcript_def)
    with main_sequence_stop [of env jid st] st c assms(1) [of "res st"]
    show ?thesis by (simp add: save_results_frame)
  qed
qed

theorem at_most_one_artifact_witness:
  "persisted (snd (process_audio_file env_not_serializable ''job1'')) =
     [error_record ''job1'' (Exception ''Object of type float32 is not JSON serializable'')]"
proof -
  have "fst (main_sequence env_not_serializable ''job1'') =
      Some (Exception ''Object of type float32 is not JSON serializable'')"
    by (rule main_sequence_write_fails [where t = "\<lparr>mock_mode = False, truthy = True\<rparr>"])
      (simp_all add: env_not_serializable_def)
  moreover have "write_file env_not_serializable
      (error_record ''job1'' (Exception ''Object of type float32 is not JSON serializable'')) = None"
    by (simp add: env_not_serializable_def error_record_def)
  ultimately show ?thesis
    using at_most_one_artifact [of env_not_serializable "''job1''"] by simp
qed

text \<open>
  C2 as stated fails on the path where the file cannot be written: the write of the full
  record raises, the handler's write of the minimal record raises too and is only logged.
\<close>

theorem nothing_persisted_counterexample:
  "persisted (snd (process_audio_file env_disk_full ''job1'')) = []"
proof -
  have "fst (main_sequence env_disk_full ''job1'') = Some (Exception ''No space left on device'')"
    by (rule main_sequence_write_fails [where t = "\<lparr>mock_mode = False, truthy = True\<rparr>"])
      (simp_all add: env_disk_full_def)
  then show ?thesis
    by (simp add: process_audio_file_persisted) (simp add: env_disk_full_def)
qed

text \<open>
  C1, as the code has it: when the transcript after the transcription stage is the empty
  string or starts with \<^verbatim>\<open>"Error:"\<close>, none of diarization, topic detection and summarization
  is called, the record is left as it is and handed to the write at once; when that write
  succeeds it is the one persisted record, and its transcript is the transcript as it
  stood at the gate: the error marker after a failure, the empty string after an empty
  transcription.
\<close>

theorem transcript_gate_stops:
  assumes "transcription env jid = Inl st \<or> transcription env jid = Inr st"
    and "transcript (res st) = Some (Text t)"
    and "t = [] \<or> prefix ''Error:'' t"
  shows "Diarize \<notin> set (invoked (snd (process_audio_file env jid)))
       \<and> DetectTopics \<notin> set (invoked (snd (process_audio_file env jid)))
       \<and> ExtractiveSummarize \<notin> set (invoked (snd (process_audio_file env jid)))
       \<and> AbstractiveSummarize \<notin> set (invoked (snd (process_audio_file env jid)))
       \<and> res (snd (process_audio_file env jid)) = res st
       \<and> (write_file env (res st) = None \<longrightarrow>
            persisted (snd (process_audio_file env jid)) = [res st]
            \<and> map transcript (persisted (snd (process_audio_file env jid))) = [Some (Text t)])"
proof -
  have "valid_transcript (res st) = Inr False"
    using assms(2,3) by (auto simp add: valid_transcript_def)
  with assms(1) have m: "main_sequence env jid = save_results env st"
    using main_sequence_stop [of env jid st] by blast
  have inv: "set (invoked st) \<subseteq> {AudioProcessorInit, ExtractMetadata, TranscriberInit, Transcribe}"
    using transcription_facts(1) [OF assms(1)] .
  have out: "invoked (snd (process_audio_file env jid)) = invoked st"
    "res (snd (process_audio_file env jid)) = res st"
    by (simp_all add: process_audio_file_frame m save_results_frame)
  have "write_file env (res st) = None \<longrightarrow> persisted (snd (process_audio_file env jid)) = [res st]"
    by (simp add: process_audio_file_persisted m save_results_frame)
  then show ?thesis using inv out assms(2) by auto
qed

theorem transcript_gate_stops_witness:
  "Diarize \<notin> set (invoked (snd (process_audio_file env_transcribe_fails ''job1'')))
   \<and> map transcript (persisted (snd (process_audio_file env_transcribe_fails ''job1'')))
       = [Some (Text ''Error: ffmpeg not found'')]"
proof -
  have "\<exists>st. transcription env_transcribe_fails ''job1'' = Inr st \<and>
      transcript (res st) = Some (Text ''Error: ffmpeg not found'')"
    using transcription_transcript [of env_transcribe_fails "\<lparr>mock_mode = False, truthy = True\<rparr>" "''job1''"]
    by (auto simp add: env_transcribe_fails_def)
  then obtain st where st: "transcription env_transcribe_fails ''job1'' = Inr st"
    "transcript (res st) = Some (Text ''Error: ffmpeg not found'')" by blast
  have w: "write_file env_transcribe_fails (res st) = None"
    by (simp add: env_transcribe_fails_def)
  have "''Error: ffmpeg not found'' = [] \<or> prefix ''Error:'' ''Error: ffmpeg not found''" by simp
  from transcript_gate_stops [of env_transcribe_fails "''job1''" st, OF _ st(2) this] st w
  show ?thesis by simp
qed

text \<open>
  C1 as stated fails when the transcriber returns an empty text: the persisted transcript
  is the empty string, which is not an error marker.
\<close>

theorem empty_transcript_counterexample:
  "map transcript (persisted (snd (process_audio_file env_empty_transcript ''job1'')))
     = [Some (Text [])] \<and> \<not> prefix ''Error:'' ([] :: string)"
proof -
  have "\<exists>st. transcription env_empty_transcript ''job1'' = Inr st \<and>
      transcript (res st) = Some (Text [])"
    using transcription_transcript [of env_empty_transcript "\<lparr>mock_mode = False, truthy = True\<rparr>" "''job1''"]
    by (auto simp add: env_empty_transcript_def)
  then obtain st where st: "transcription env_empty_transcript ''job1'' = Inr st"
    "transcript (res st) = Some (Text [])" by blast
  then have "valid_transcript (res st) = Inr False" by (simp add: valid_transcript_def)
  with st have m: "main_sequence env_empty_transcript ''job1'' = save_results env_empty_transcript st"
    using main_sequence_stop [of env_empty_transcript "''job1''" st] by simp
  have w: "write_file env_empty_transcript (res st) = None"
    by (simp add: env_empty_transcript_def)
  show ?thesis
    using st(2) w by (simp add: process_audio_file_persisted m save_results_frame)
qed

text \<open>
  C5: when the gates pass and the diarization stage succeeds, the \<^verbatim>\<open>segments\<close> of the
  record become the diarizer's \<^verbatim>\<open>"segments"\<close> only if the diarizer returned a dictionary
  holding a non-empty list there; in every other case the transcription segments stay.
  The job then still completes with topics and both summaries. In particular the list
  with the unknown-speaker sentinel, which \<^verbatim>\<open>diarize\<close> returns when it has no pipeline,
  leaves the segments alone and is recorded as an error marker of the stage only.
\<close>

theorem segments_replaced_only_by_list:
  assumes "transcription env jid = Inr st" and "valid_transcript (res st) = Inr True"
    and "token_configured env"
    and "segments (res st) = Some (SegList l)" and "5 \<le> length l"
    and "10 \<le> total_audio_duration l"
    and "diarize_call env = Inr r" and "\<not> diarization_timer_fired env"
  shows "segments (res (snd (process_audio_file env jid))) =
           (case r of
              DiarDict (Some (SegList l')) \<Rightarrow> if l' \<noteq> [] then Some (SegList l') else Some (SegList l)
            | _ \<Rightarrow> Some (SegList l))
       \<and> status (res (snd (process_audio_file env jid))) = ''completed''
       \<and> error (res (snd (process_audio_file env jid))) = None
       \<and> (\<exists>v. topics (res (snd (process_audio_file env jid))) = Some v)
       \<and> (\<exists>v. extractive_summary (res (snd (process_audio_file env jid))) = Some v)
       \<and> (\<exists>v. abstractive_summary (res (snd (process_audio_file env jid))) = Some v)
       \<and> (\<forall>d n y m. \<not> pipeline_loaded d \<and> r = DiarList (diarize d n y m) \<longrightarrow>
            segments (res (snd (process_audio_file env jid))) = Some (SegList l)
            \<and> diarization (res (snd (process_audio_file env jid)))
                = Some (DiarError ''Invalid diarization result format''))"
proof -
  have g: "gates_pass env st" using assms(3-6) by (auto simp add: gates_pass_def)
  have d: "speaker_diarization env st = accept_diarization r (call Diarize st)"
    using gates_pass_run [OF g] run_diarization_success [OF assms(7,8)] by simp
  have out: "res (snd (process_audio_file env jid)) = res (stages env st)"
    using main_sequence_valid [OF assms(1,2)]
    by (simp add: process_audio_file_frame save_results_frame)
  have c: "status (res st) = ''completed''" "error (res st) = None"
    using transcription_facts(3,4) [of env jid st] assms(1) by simp_all
  have seg: "segments (res (stages env st)) =
           (case r of
              DiarDict (Some (SegList l')) \<Rightarrow> if l' \<noteq> [] then Some (SegList l') else Some (SegList l)
            | _ \<Rightarrow> Some (SegList l))"
    using assms(4)
    by (simp add: stages_frame d accept_diarization_segments
        split: diar_result.split option.split segments_value.split)
  have fld: "diarization (res (stages env st)) =
     Some (case r of DiarDict sv \<Rightarrow> DiarOutput sv
           | _ \<Rightarrow> DiarError ''Invalid diarization result format'')"
    by (simp add: stages_frame d accept_diarization_field)
  show ?thesis
    using seg fld c stages_frame(8,9,10) [of env st]
    by (auto simp add: out stages_frame)
qed

theorem segments_replaced_only_by_list_witness:
  "segments (res (snd (process_audio_file env_ok ''job1''))) = Some (SegList five_segments)
   \<and> status (res (snd (process_audio_file env_ok ''job1''))) = ''completed''
   \<and> diarization (res (snd (process_audio_file env_ok ''job1'')))
       = Some (DiarError ''Invalid diarization result format'')"
proof -
  have "\<exists>st. transcription env_ok ''job1'' = Inr st \<and>
      transcript (res st) = Some (Text ''Welcome back. Today we talk about rivers.'') \<and>
      segments (res st) = Some (SegList five_segments)"
    using transcription_transcript [of env_ok "\<lparr>mock_mode = False, truthy = True\<rparr>" "''job1''"]
    by simp
  then obtain st where st: "transcription env_ok ''job1'' = Inr st"
    "transcript (res st) = Some (Text ''Welcome back. Today we talk about rivers.'')"
    "segments (res st) = Some (SegList five_segments)" by blast
  have v: "valid_transcript (res st) = Inr True" using st(2) by (simp add: valid_transcript_def)
  have tok: "token_configured env_ok" by (simp add: token_configured_def)
  have len: "5 \<le> length five_segments" by (simp add: five_segments_def)
  have dur: "10 \<le> total_audio_duration five_segments"
    by (simp add: five_segments_def total_audio_duration_def item_end_def)
  have call: "diarize_call env_ok = Inr (DiarList (diarize no_pipeline None False None))" by simp
  have tf: "\<not> diarization_timer_fired env_ok" by simp
  have np: "\<not> pipeline_loaded no_pipeline" by (simp add: no_pipeline_def)
  from segments_replaced_only_by_list [OF st(1) v tok st(3) len dur call tf] np
  show ?thesis by auto
qed

theorem diarization_gates_witness:
  "Diarize \<in> set (invoked (snd (process_audio_file env_ok ''job1'')))"
proof -
  have "\<exists>st. transcription env_ok ''job1'' = Inr st \<and>
      transcript (res st) = Some (Text ''Welcome back. Today we talk about rivers.'') \<and>
      segments (res st) = Some (SegList five_segments)"
    using transcription_transcript [of env_ok "\<lparr>mock_mode = False, truthy = True\<rparr>" "''job1''"]
    by simp
  then obtain st where st: "transcription env_ok ''job1'' = Inr st"
    "transcript (res st) = Some (Text ''Welcome back. Today we talk about rivers.'')"
    "segments (res st) = Some (SegList five_segments)" by blast
  have v: "valid_transcript (res st) = Inr True" using st(2) by (simp add: valid_transcript_def)
  have tok: "token_configured env_ok" by (simp add: token_configured_def)
  have len: "5 \<le> length five_segments" by (simp add: five_segments_def)
  have dur: "10 \<le> total_audio_duration five_segments"
    by (simp add: five_segments_def total_audio_duration_def item_end_def)
  from diarization_gates [OF st(1) v] tok st(3) len dur show ?thesis by simp
qed

text \<open>
  C4 at a single turn of one speaker: \<^verbatim>\<open>_enforce_two_speakers\<close> finds no gap to split at and
  returns the turn unchanged, with one speaker identity instead of two.
\<close>

theorem enforce_two_speakers_single_turn:
  "enforce_two_speakers [seg_minute] = [seg_minute]
   \<and> card (set (map speaker (enforce_two_speakers [seg_minute]))) = 1"
  by (simp add: enforce_two_speakers_def unique_speakers_def seg_minute_def)

section \<open>The summarizers never raise\<close>

lemma extractive_fallback_points:
  "points_dict (ExtractiveSummarizer_fallback_summarize x text)"
  by (simp add: ExtractiveSummarizer_fallback_summarize_def try_except_def
      extractive_fallback_body_def points_dict_def Let_def split: sum.split)

lemma extractive_summarize_points: "points_dict (ExtractiveSummarizer_summarize x text)"
proof (cases "SUMY_AVAILABLE x")
  case False
  then show ?thesis by (simp add: ExtractiveSummarizer_summarize_def extractive_fallback_points)
next
  case True
  have inner: "\<And>c. (\<exists>e. extractive_inner x text c = Inl e) \<or> points_dict (extractive_inner x text c)"
    using extractive_fallback_points [of x]
    by (simp add: extractive_inner_def points_dict_def split: sumy_outcome.split)
  show ?thesis
  proof (cases "clean_transcript (extractive_re x) text")
    case (Inl e)
    then show ?thesis using True
      by (simp add: ExtractiveSummarizer_summarize_def try_except_def extractive_fallback_points)
  next
    case (Inr c)
    from inner [of c] show ?thesis
    proof
      assume "\<exists>e. extractive_inner x text c = Inl e"
      then show ?thesis using True Inr
        by (auto simp add: ExtractiveSummarizer_summarize_def try_except_def extractive_fallback_points)
    next
      assume p: "points_dict (extractive_inner x text c)"
      then obtain d where "extractive_inner x text c = Inr d" by (auto simp add: points_dict_def)
      then show ?thesis using True Inr p
        by (simp add: ExtractiveSummarizer_summarize_def try_except_def)
    qed
  qed
qed

lemma abstractive_fallback_text: "text_dict (AbstractiveSummarizer_fallback_summarize a text)"
  by (simp add: AbstractiveSummarizer_fallback_summarize_def try_except_def
      abstractive_fallback_body_def text_dict_def too_short_def Let_def split: sum.split)

lemma summarize_chunk_text:
  "(\<exists>e. summarize_chunk a chunk = Inl e) \<or> text_dict (summarize_chunk a chunk)"
  by (simp add: summarize_chunk_def try_except_def text_dict_def split: sum.split)

lemma try_except_text:
  assumes "(\<exists>e. body = Inl e) \<or> text_dict body" and "\<And>e. text_dict (handler e)"
  shows "text_dict (try_except body handler)"
  using assms by (auto simp add: try_except_def text_dict_def)

lemma long_text_body_text:
  "(\<exists>e. long_text_body a text = Inl e) \<or> text_dict (long_text_body a text)"
proof -
  have tail: "\<And>ss. (\<exists>e. (if 500 < word_count (join_spaces ss)
                              then summarize_chunk a (join_spaces ss)
                              else Inr [(''summary'', SummaryStr (join_spaces ss))]) = Inl e)
       \<or> text_dict (if 500 < word_count (join_spaces ss)
                              then summarize_chunk a (join_spaces ss)
                              else Inr [(''summary'', SummaryStr (join_spaces ss))])"
    using summarize_chunk_text [of a] by (simp add: text_dict_def)
  show ?thesis
    using summarize_chunk_text [of a] tail
    by (simp add: long_text_body_def Let_def split: sum.split)
qed

lemma summarize_long_text_text: "text_dict (summarize_long_text a text)"
  unfolding summarize_long_text_def
  by (rule try_except_text) (rule long_text_body_text, rule abstractive_fallback_text)

lemma abstractive_body_text:
  "(\<exists>e. abstractive_body a text = Inl e) \<or> text_dict (abstractive_body a text)"
  using summarize_long_text_text [of a] abstractive_fallback_text [of a "text"]
  by (simp add: abstractive_body_def too_short_def split: sum.split) (simp add: text_dict_def)

lemma abstractive_summarize_text: "text_dict (AbstractiveSummarizer_summarize a text)"
proof (cases "model_available a")
  case False
  then show ?thesis by (simp add: AbstractiveSummarizer_summarize_def abstractive_fallback_text)
next
  case True
  have "text_dict (try_except (abstractive_body a text)
             (\<lambda>e. AbstractiveSummarizer_fallback_summarize a text))"
    by (rule try_except_text) (rule abstractive_body_text, rule abstractive_fallback_text)
  then show ?thesis using True by (simp add: AbstractiveSummarizer_summarize_def)
qed

text \<open>
  C10: for every input text and whatever the libraries answer or raise,
  \<^verbatim>\<open>ExtractiveSummarizer.summarize\<close> returns a dictionary whose \<^verbatim>\<open>"summary"\<close> is a non-empty
  list and \<^verbatim>\<open>AbstractiveSummarizer.summarize\<close> returns a dictionary with a \<^verbatim>\<open>"summary"\<close>
  (a string); neither raises, and the two fallbacks answer in the same form.
\<close>

theorem summarizers_always_answer:
  "(\<exists>d l. ExtractiveSummarizer_summarize x text = Inr d
           \<and> map_of d ''summary'' = Some (SummaryList l) \<and> l \<noteq> [])
   \<and> (\<exists>d s. AbstractiveSummarizer_summarize a text = Inr d
           \<and> map_of d ''summary'' = Some (SummaryStr s))
   \<and> (\<exists>d l. ExtractiveSummarizer_fallback_summarize x text = Inr d
           \<and> map_of d ''summary'' = Some (SummaryList l) \<and> l \<noteq> [])
   \<and> (\<exists>d s. AbstractiveSummarizer_fallback_summarize a text = Inr d
           \<and> map_of d ''summary'' = Some (SummaryStr s))"
  using extractive_summarize_points [of x "text"] abstractive_summarize_text [of a "text"]
    extractive_fallback_points [of x "text"] abstractive_fallback_text [of a "text"]
  by (simp add: points_dict_def text_dict_def)

theorem summarizers_always_answer_witness:
  "ExtractiveSummarizer_summarize no_sumy ''Rivers move.''
     = Inr [(''summary'', SummaryList [''Rivers move.''])]
   \<and> AbstractiveSummarizer_summarize no_model ''Rivers move.'' = Inr too_short"
  using summarizers_always_answer [of no_sumy "''Rivers move.''" no_model]
  by (simp add: ExtractiveSummarizer_summarize_def ExtractiveSummarizer_fallback_summarize_def
      extractive_fallback_body_def AbstractiveSummarizer_summarize_def abstractive_body_def
      try_except_def clean_transcript_def no_sumy_def no_model_def plain_re_def
      stripped_points_def py_strip_def is_space_def word_count_def py_split_def Let_def)

section \<open>Chunked against unchunked processing\<close>

lemma py_round_add_even: "even m \<Longrightarrow> py_round (y + of_int m) = py_round y + m"
  by (simp add: py_round_def Let_def)

lemma round2_shift: "round2 (x + of_nat k) = round2 x + of_nat k"
proof -
  have e: "(x + of_nat k) * 100 = x * 100 + of_int (100 * int k)" by (simp add: algebra_simps)
  have "py_round (x * 100 + of_int (100 * int k)) = py_round (x * 100) + 100 * int k"
    by (rule py_round_add_even) simp
  then have "py_round ((x + of_nat k) * 100) = py_round (x * 100) + 100 * int k"
    by (simp only: e)
  then show ?thesis by (simp add: round2_def add_divide_distrib)
qed

lemma raw_segment_shift:
  "raw_segment (shift_turn (of_nat k) t) = shift_seg (of_nat k) (raw_segment t)"
  by (simp add: raw_segment_def shift_turn_def shift_seg_def round2_shift)

lemma shift_seg_simps [simp]:
  "seg_start (shift_seg off s) = seg_start s + off"
  "seg_end (shift_seg off s) = seg_end s + off"
  "speaker (shift_seg off s) = speaker s"
  "duration (shift_seg off s) = duration s"
  "confidence (shift_seg off s) = confidence s"
  by (simp_all add: shift_seg_def)

lemma insort_shift:
  "insort_key seg_start (shift_seg off x) (map (shift_seg off) xs)
     = map (shift_seg off) (insort_key seg_start x xs)"
  by (induction xs) simp_all

lemma sort_shift:
  "sort_key seg_start (map (shift_seg off) xs) = map (shift_seg off) (sort_key seg_start xs)"
  by (induction xs) (simp_all add: insort_shift)

lemma mergeable_shift [simp]:
  "mergeable c (shift_seg off a) (shift_seg off b) = mergeable c a b"
  by (simp add: mergeable_def)

lemma merge_sweep_shift:
  "merge_sweep c [] (shift_seg off cur) (map (shift_seg off) xs)
     = map (shift_seg off) (merge_sweep c [] cur xs)"
proof (induction xs arbitrary: cur)
  case Nil
  show ?case by simp
next
  case (Cons n ns)
  let ?cur = "cur\<lparr>seg_end := seg_end n, duration := round2 (seg_end n - seg_start cur)\<rparr>"
  have e: "(shift_seg off cur)\<lparr>seg_end := seg_end n + off,
        duration := round2 (seg_end n - seg_start cur)\<rparr> = shift_seg off ?cur"
    by (simp add: shift_seg_def)
  show ?case using Cons.IH [of ?cur] Cons.IH [of n] by (simp add: e)
qed

lemma merge_pass_shift:
  "merge_pass c (map (shift_seg off) xs) = map (shift_seg off) (merge_pass c xs)"
  by (cases "sort_key seg_start xs") (simp_all add: merge_pass_def sort_shift merge_sweep_shift)

lemma merge_pass_sweep_list: "merge_pass c xs = sweep_list c (sort_key seg_start xs)"
  by (simp add: merge_pass_def sweep_list_def)

lemma insort_append_left:
  "\<forall>y\<in>set ys. f x \<le> f y \<Longrightarrow> insort_key f x (xs @ ys) = insort_key f x xs @ ys"
  by (induction xs) (simp_all add: insort_is_Cons)

lemma sort_key_append:
  "\<forall>x\<in>set xs. \<forall>y\<in>set ys. f x \<le> f y \<Longrightarrow>
     sort_key f (xs @ ys) = sort_key f xs @ sort_key f ys"
proof (induction xs)
  case Nil
  show ?case by simp
next
  case (Cons x xs)
  then have "sort_key f (xs @ ys) = sort_key f xs @ sort_key f ys" by simp
  moreover have "\<forall>y\<in>set (sort_key f ys). f x \<le> f y" using Cons.prems by simp
  ultimately show ?case by (simp add: insort_append_left)
qed

lemma merge_sweep_nonempty: "merge_sweep c [] cur xs \<noteq> []"
  using merge_sweep_head [of c cur xs] by auto

lemma merge_sweep_append:
  "merge_sweep c [] cur (xs @ ys) =
     butlast (merge_sweep c [] cur xs) @ merge_sweep c [] (last (merge_sweep c [] cur xs)) ys"
proof (induction xs arbitrary: cur)
  case Nil
  show ?case by simp
next
  case (Cons n ns)
  show ?case
  proof (cases "mergeable c cur n")
    case True
    then show ?thesis using Cons.IH by simp
  next
    case False
    then show ?thesis using Cons.IH [of n] merge_sweep_nonempty [of c n ns] by simp
  qed
qed

lemma merge_sweep_over_swept:
  "merge_sweep c [] cur (merge_sweep c [] y ys) = merge_sweep c [] cur (y # ys)"
proof (induction ys arbitrary: cur y)
  case Nil
  show ?case by simp
next
  case (Cons n ns)
  let ?y = "y\<lparr>seg_end := seg_end n, duration := round2 (seg_end n - seg_start y)\<rparr>"
  let ?cur = "cur\<lparr>seg_end := seg_end y, duration := round2 (seg_end y - seg_start cur)\<rparr>"
  show ?case
  proof (cases "mergeable c y n")
    case yn: True
    have m: "mergeable c cur ?y = mergeable c cur y" by (simp add: mergeable_def)
    have l: "merge_sweep c [] cur (merge_sweep c [] y (n # ns)) = merge_sweep c [] cur (?y # ns)"
      using yn Cons.IH [of cur ?y] by simp
    show ?thesis
    proof (cases "mergeable c cur y")
      case True
      then have "mergeable c ?cur n" using yn by (simp add: mergeable_def)
      then show ?thesis using True l m by simp
    next
      case False
      then show ?thesis using l m yn by simp
    qed
  next
    case yn: False
    show ?thesis
    proof (cases "mergeable c cur y")
      case True
      then show ?thesis using yn Cons.IH [of ?cur n] by simp
    next
      case False
      then show ?thesis using yn Cons.IH [of y n] by simp
    qed
  qed
qed

lemma sweep_list_fixed: "sweep_list c (sweep_list c xs) = sweep_list c xs"
proof (cases xs)
  case Nil
  then show ?thesis by (simp add: sweep_list_def)
next
  case (Cons x xs')
  obtain h t where ht: "merge_sweep c [] x xs' = h # t"
    using merge_sweep_head [of c x xs'] by blast
  have "adjacent (\<lambda>a b. \<not> mergeable c a b) (h # t)"
    using merge_sweep_unmergeable [of c x xs'] ht by simp
  then show ?thesis using Cons ht merge_sweep_fixed [of c h t] by (simp add: sweep_list_def)
qed

lemma sweep_list_append_right:
  "sweep_list c (xs @ sweep_list c ys) = sweep_list c (xs @ ys)"
proof (cases ys)
  case Nil
  then show ?thesis by (simp add: sweep_list_def)
next
  case ys: (Cons y ys')
  show ?thesis
  proof (cases xs)
    case Nil
    then show ?thesis using sweep_list_fixed [of c ys] by simp
  next
    case (Cons x xs')
    then show ?thesis using ys
      by (simp add: sweep_list_def merge_sweep_append [of c x xs'] merge_sweep_over_swept)
  qed
qed

lemma sweep_list_append_left:
  "sweep_list c (sweep_list c xs @ ys) = sweep_list c (xs @ ys)"
proof (cases xs)
  case Nil
  then show ?thesis by (simp add: sweep_list_def)
next
  case (Cons x xs')
  obtain h t where ht: "merge_sweep c [] x xs' = h # t"
    using merge_sweep_head [of c x xs'] by blast
  have "adjacent (\<lambda>a b. \<not> mergeable c a b) (h # t)"
    using merge_sweep_unmergeable [of c x xs'] ht by simp
  then have fx: "merge_sweep c [] h t = h # t" by (rule merge_sweep_fixed)
  have "sweep_list c (sweep_list c xs @ ys) = merge_sweep c [] h (t @ ys)"
    using Cons ht by (simp add: sweep_list_def)
  also have "\<dots> = butlast (h # t) @ merge_sweep c [] (last (h # t)) ys"
    using merge_sweep_append [of c h t ys] fx by simp
  also have "\<dots> = merge_sweep c [] x (xs' @ ys)"
    using merge_sweep_append [of c x xs' ys] ht by simp
  finally show ?thesis using Cons by (simp add: sweep_list_def)
qed

lemma merge_sweep_starts:
  "seg_start ` set (merge_sweep c [] cur xs) \<subseteq> seg_start ` set (cur # xs)"
proof (induction xs arbitrary: cur)
  case Nil
  show ?case by simp
next
  case (Cons n ns)
  let ?cur = "cur\<lparr>seg_end := seg_end n, duration := round2 (seg_end n - seg_start cur)\<rparr>"
  show ?case
  proof (cases "mergeable c cur n")
    case True
    have "seg_start ` set (merge_sweep c [] ?cur ns) \<subseteq> seg_start ` set (?cur # ns)"
      by (rule Cons.IH)
    also have "\<dots> \<subseteq> seg_start ` set (cur # n # ns)" by (simp add: subset_insertI2)
    finally show ?thesis using True by simp
  next
    case False
    have "seg_start ` set (merge_sweep c [] n ns) \<subseteq> seg_start ` set (n # ns)"
      by (rule Cons.IH)
    then have "insert (seg_start cur) (seg_start ` set (merge_sweep c [] n ns))
        \<subseteq> insert (seg_start cur) (seg_start ` set (n # ns))" by (rule insert_mono)
    then show ?thesis using False by simp
  qed
qed

lemma merge_sweep_speakers:
  "speaker ` set (merge_sweep c [] cur xs) \<subseteq> speaker ` set (cur # xs)"
proof (induction xs arbitrary: cur)
  case Nil
  show ?case by simp
next
  case (Cons n ns)
  let ?cur = "cur\<lparr>seg_end := seg_end n, duration := round2 (seg_end n - seg_start cur)\<rparr>"
  show ?case
  proof (cases "mergeable c cur n")
    case True
    have "speaker ` set (merge_sweep c [] ?cur ns) \<subseteq> speaker ` set (?cur # ns)"
      by (rule Cons.IH)
    also have "\<dots> \<subseteq> speaker ` set (cur # n # ns)" by (simp add: subset_insertI2)
    finally show ?thesis using True by simp
  next
    case False
    have "speaker ` set (merge_sweep c [] n ns) \<subseteq> speaker ` set (n # ns)"
      by (rule Cons.IH)
    then have "insert (speaker cur) (speaker ` set (merge_sweep c [] n ns))
        \<subseteq> insert (speaker cur) (speaker ` set (n # ns))" by (rule insert_mono)
    then show ?thesis using False by simp
  qed
qed

lemma merge_pass_starts: "seg_start ` set (merge_pass c xs) \<subseteq> seg_start ` set xs"
proof (cases "sort_key seg_start xs")
  case Nil
  then show ?thesis by (simp add: merge_pass_def)
next
  case (Cons s rest)
  have "set (s # rest) = set xs" using Cons set_sort [of seg_start xs] by simp
  then show ?thesis using Cons merge_sweep_starts [of c s rest] by (simp add: merge_pass_def)
qed

lemma merge_pass_speakers: "speaker ` set (merge_pass c xs) \<subseteq> speaker ` set xs"
proof (cases "sort_key seg_start xs")
  case Nil
  then show ?thesis by (simp add: merge_pass_def)
next
  case (Cons s rest)
  have "set (s # rest) = set xs" using Cons set_sort [of seg_start xs] by simp
  then show ?thesis using Cons merge_sweep_speakers [of c s rest] by (simp add: merge_pass_def)
qed

lemma merge_pass_starts_le:
  assumes "\<forall>x\<in>set xs. seg_start x \<le> b" and "x \<in> set (merge_pass c xs)"
  shows "seg_start x \<le> b"
proof -
  have "seg_start x \<in> seg_start ` set (merge_pass c xs)" using assms(2) by (rule imageI)
  then have "seg_start x \<in> seg_start ` set xs" using merge_pass_starts [of c xs] by (rule rev_subsetD)
  then obtain x' where "x' \<in> set xs" "seg_start x = seg_start x'" by (rule imageE)
  then show ?thesis using assms(1) by simp
qed

lemma merge_pass_starts_ge:
  assumes "\<forall>x\<in>set xs. b \<le> seg_start x" and "x \<in> set (merge_pass c xs)"
  shows "b \<le> seg_start x"
proof -
  have "seg_start x \<in> seg_start ` set (merge_pass c xs)" using assms(2) by (rule imageI)
  then have "seg_start x \<in> seg_start ` set xs" using merge_pass_starts [of c xs] by (rule rev_subsetD)
  then obtain x' where "x' \<in> set xs" "seg_start x = seg_start x'" by (rule imageE)
  then show ?thesis using assms(1) by simp
qed

lemma sort_merge_pass: "sort_key seg_start (merge_pass c xs) = merge_pass c xs"
  by (rule sort_key_id_if_sorted) (rule merge_pass_sorted)

lemma merge_pass_append_left:
  assumes "\<forall>x\<in>set xs. \<forall>y\<in>set ys. seg_start x \<le> seg_start y"
  shows "merge_pass c (merge_pass c xs @ ys) = merge_pass c (xs @ ys)"
proof -
  have b: "\<forall>x\<in>set (merge_pass c xs). \<forall>y\<in>set ys. seg_start x \<le> seg_start y"
  proof (intro ballI)
    fix x y
    assume x: "x \<in> set (merge_pass c xs)" and y: "y \<in> set ys"
    have "\<forall>x\<in>set xs. seg_start x \<le> seg_start y" using assms y by simp
    then show "seg_start x \<le> seg_start y" using x by (rule merge_pass_starts_le)
  qed
  have "merge_pass c (merge_pass c xs @ ys)
      = sweep_list c (sort_key seg_start (merge_pass c xs @ ys))"
    by (rule merge_pass_sweep_list)
  also have "\<dots> = sweep_list c (sort_key seg_start (merge_pass c xs) @ sort_key seg_start ys)"
    by (simp only: sort_key_append [OF b])
  also have "\<dots> = sweep_list c (merge_pass c xs @ sort_key seg_start ys)"
    by (simp only: sort_merge_pass)
  also have "\<dots> = sweep_list c (sweep_list c (sort_key seg_start xs) @ sort_key seg_start ys)"
    by (simp only: merge_pass_sweep_list)
  also have "\<dots> = sweep_list c (sort_key seg_start xs @ sort_key seg_start ys)"
    by (rule sweep_list_append_left)
  also have "\<dots> = sweep_list c (sort_key seg_start (xs @ ys))"
    by (simp only: sort_key_append [OF assms])
  also have "\<dots> = merge_pass c (xs @ ys)"
    by (rule merge_pass_sweep_list [symmetric])
  finally show ?thesis .
qed

lemma merge_pass_append_right:
  assumes "\<forall>x\<in>set xs. \<forall>y\<in>set ys. seg_start x \<le> seg_start y"
  shows "merge_pass c (xs @ merge_pass c ys) = merge_pass c (xs @ ys)"
proof -
  have b: "\<forall>x\<in>set xs. \<forall>y\<in>set (merge_pass c ys). seg_start x \<le> seg_start y"
  proof (intro ballI)
    fix x y
    assume x: "x \<in> set xs" and y: "y \<in> set (merge_pass c ys)"
    have "\<forall>y\<in>set ys. seg_start x \<le> seg_start y" using assms x by simp
    then show "seg_start x \<le> seg_start y" using y by (rule merge_pass_starts_ge)
  qed
  have "merge_pass c (xs @ merge_pass c ys)
      = sweep_list c (sort_key seg_start (xs @ merge_pass c ys))"
    by (rule merge_pass_sweep_list)
  also have "\<dots> = sweep_list c (sort_key seg_start xs @ sort_key seg_start (merge_pass c ys))"
    by (simp only: sort_key_append [OF b])
  also have "\<dots> = sweep_list c (sort_key seg_start xs @ merge_pass c ys)"
    by (simp only: sort_merge_pass)
  also have "\<dots> = sweep_list c (sort_key seg_start xs @ sweep_list c (sort_key seg_start ys))"
    by (simp only: merge_pass_sweep_list)
  also have "\<dots> = sweep_list c (sort_key seg_start xs @ sort_key seg_start ys)"
    by (rule sweep_list_append_right)
  also have "\<dots> = sweep_list c (sort_key seg_start (xs @ ys))"
    by (simp only: sort_key_append [OF assms])
  also have "\<dots> = merge_pass c (xs @ ys)"
    by (rule merge_pass_sweep_list [symmetric])
  finally show ?thesis .
qed

lemma concat_merge_pass_starts:
  "seg_start ` set (concat (map (merge_pass c) bs)) \<subseteq> seg_start ` set (concat bs)"
proof (induction bs)
  case Nil
  show ?case by simp
next
  case (Cons b bs)
  have "seg_start ` set (concat (map (merge_pass c) (b # bs)))
      = seg_start ` set (merge_pass c b) \<union> seg_start ` set (concat (map (merge_pass c) bs))"
    by (simp add: image_Un)
  also have "\<dots> \<subseteq> seg_start ` set b \<union> seg_start ` set (concat bs)"
    using merge_pass_starts [of c b] Cons.IH by (rule Un_mono)
  also have "\<dots> = seg_start ` set (concat (b # bs))" by (simp add: image_Un)
  finally show ?case .
qed

lemma merge_pass_blocks:
  "blocks_ordered bs \<Longrightarrow>
     merge_pass c (concat (map (merge_pass c) bs)) = merge_pass c (concat bs)"
proof (induction bs)
  case Nil
  show ?case by simp
next
  case (Cons b bs)
  from Cons.prems have ord: "\<forall>x\<in>set b. \<forall>y\<in>set (concat bs). seg_start x \<le> seg_start y"
    and rest: "blocks_ordered bs" by simp_all
  have ord': "\<forall>x\<in>set b. \<forall>y\<in>set (concat (map (merge_pass c) bs)). seg_start x \<le> seg_start y"
  proof (intro ballI)
    fix x y
    assume x: "x \<in> set b" and y: "y \<in> set (concat (map (merge_pass c) bs))"
    have "seg_start y \<in> seg_start ` set (concat (map (merge_pass c) bs))" using y by (rule imageI)
    then have "seg_start y \<in> seg_start ` set (concat bs)"
      using concat_merge_pass_starts [of c bs] by (rule rev_subsetD)
    then obtain y' where y': "y' \<in> set (concat bs)" "seg_start y = seg_start y'" by (rule imageE)
    have "\<forall>y\<in>set (concat bs). seg_start x \<le> seg_start y" using ord x by (rule bspec)
    then have "seg_start x \<le> seg_start y'" using y'(1) by (rule bspec)
    then show "seg_start x \<le> seg_start y" by (simp only: y'(2))
  qed
  have "merge_pass c (concat (map (merge_pass c) (b # bs)))
      = merge_pass c (merge_pass c b @ concat (map (merge_pass c) bs))" by simp
  also have "\<dots> = merge_pass c (b @ concat (map (merge_pass c) bs))"
    using ord' by (rule merge_pass_append_left)
  also have "\<dots> = merge_pass c (b @ merge_pass c (concat (map (merge_pass c) bs)))"
    using ord' by (rule merge_pass_append_right [symmetric])
  also have "\<dots> = merge_pass c (b @ merge_pass c (concat bs))"
    using Cons.IH [OF rest] by simp
  also have "\<dots> = merge_pass c (b @ concat bs)"
    using ord by (rule merge_pass_append_right)
  finally show ?case by simp
qed

lemma insort_related:
  "related \<rho> x y \<Longrightarrow> list_all2 (related \<rho>) xs ys \<Longrightarrow>
     list_all2 (related \<rho>) (insort_key seg_start x xs) (insort_key seg_start y ys)"
proof (induction xs arbitrary: ys)
  case Nil
  then show ?case by simp
next
  case (Cons a as)
  then obtain b bs where ys: "ys = b # bs" "related \<rho> a b" "list_all2 (related \<rho>) as bs"
    by (auto simp add: list_all2_Cons1)
  have "seg_start y = seg_start x" "seg_start b = seg_start a"
    using Cons.prems(1) ys(2) by (simp_all add: related_def)
  then show ?case using Cons.IH [OF Cons.prems(1) ys(3)] ys Cons.prems(1) by simp
qed

lemma sort_related:
  "list_all2 (related \<rho>) xs ys \<Longrightarrow>
     list_all2 (related \<rho>) (sort_key seg_start xs) (sort_key seg_start ys)"
  by (induction xs ys rule: list_all2_induct) (simp_all add: insort_related)

lemma merge_sweep_related:
  assumes "inj_on \<rho> S"
  shows "related \<rho> cur cur' \<Longrightarrow> list_all2 (related \<rho>) xs ys \<Longrightarrow>
     speaker cur \<in> S \<Longrightarrow> speaker ` set xs \<subseteq> S \<Longrightarrow>
     list_all2 (related \<rho>) (merge_sweep c [] cur xs) (merge_sweep c [] cur' ys)"
proof (induction xs arbitrary: cur cur' ys)
  case Nil
  then show ?case by simp
next
  case (Cons n ns)
  then obtain n' ns' where ys: "ys = n' # ns'" "related \<rho> n n'" "list_all2 (related \<rho>) ns ns'"
    by (auto simp add: list_all2_Cons1)
  have nS: "speaker n \<in> S" "speaker ` set ns \<subseteq> S" using Cons.prems(4) by simp_all
  have "speaker n' = speaker cur' \<longleftrightarrow> speaker n = speaker cur"
    using ys(2) Cons.prems(1,3) nS(1) assms by (auto simp add: related_def inj_on_def)
  then have m: "mergeable c cur' n' = mergeable c cur n"
    using ys(2) Cons.prems(1) by (simp add: mergeable_def related_def)
  let ?cur = "cur\<lparr>seg_end := seg_end n, duration := round2 (seg_end n - seg_start cur)\<rparr>"
  let ?cur' = "cur'\<lparr>seg_end := seg_end n', duration := round2 (seg_end n' - seg_start cur')\<rparr>"
  have r: "related \<rho> ?cur ?cur'" using ys(2) Cons.prems(1) by (simp add: related_def)
  show ?case
  proof (cases "mergeable c cur n")
    case True
    have "list_all2 (related \<rho>) (merge_sweep c [] ?cur ns) (merge_sweep c [] ?cur' ns')"
      using Cons.IH [OF r ys(3) _ nS(2)] Cons.prems(3) by simp
    then show ?thesis using True m ys(1) by simp
  next
    case False
    have "list_all2 (related \<rho>) (merge_sweep c [] n ns) (merge_sweep c [] n' ns')"
      using Cons.IH [OF ys(2) ys(3) nS(1) nS(2)] .
    then show ?thesis using False m ys(1) Cons.prems(1) by simp
  qed
qed

lemma merge_pass_related:
  assumes "inj_on \<rho> S" and "list_all2 (related \<rho>) xs ys" and "speaker ` set xs \<subseteq> S"
  shows "list_all2 (related \<rho>) (merge_pass c xs) (merge_pass c ys)"
proof -
  have s: "list_all2 (related \<rho>) (sort_key seg_start xs) (sort_key seg_start ys)"
    using assms(2) by (rule sort_related)
  show ?thesis
  proof (cases "sort_key seg_start xs")
    case Nil
    then show ?thesis using s by (simp add: merge_pass_def)
  next
    case (Cons a as)
    then obtain b bs where ys: "sort_key seg_start ys = b # bs" "related \<rho> a b"
      "list_all2 (related \<rho>) as bs"
      using s by (auto simp add: list_all2_Cons1)
    have "set (a # as) = set xs" using Cons set_sort [of seg_start xs] by simp
    then have "speaker a \<in> S" "speaker ` set as \<subseteq> S" using assms(3) by auto
    from merge_sweep_related [OF assms(1) ys(2) ys(3) this]
    show ?thesis using Cons ys(1) by (simp add: merge_pass_def)
  qed
qed

lemma speaker_times_related:
  assumes "inj_on \<rho> S" and "s \<in> S"
  shows "list_all2 (related \<rho>) xs ys \<Longrightarrow> speaker ` set xs \<subseteq> S \<Longrightarrow>
     speaker_times ys (\<rho> s) = speaker_times xs s"
proof (induction xs ys rule: list_all2_induct)
  case Nil
  show ?case by (simp add: speaker_times_def)
next
  case (Cons x xs y ys)
  have "speaker x \<in> S" using Cons.prems by simp
  then have "speaker y = \<rho> s \<longleftrightarrow> speaker x = s"
    using Cons.hyps(1) assms by (auto simp add: related_def inj_on_def)
  moreover have "duration y = duration x" using Cons.hyps(1) by (simp add: related_def)
  moreover have "speaker_times ys (\<rho> s) = speaker_times xs s" using Cons by simp
  ultimately show ?case by (simp add: speaker_times_def)
qed

lemma first_seen_Nil: "first_seen []"
  by (simp add: first_seen_def)

lemma first_seen_snoc:
  assumes "first_seen m" and "map_of m k = None"
  shows "first_seen (m @ [(k, Speaker (length m + 1))])"
proof -
  have "k \<notin> fst ` set m" using assms(2) by (simp add: map_of_eq_None_iff)
  then show ?thesis using assms(1) by (simp add: first_seen_def)
qed

lemma first_seen_inj:
  assumes "first_seen m"
  shows "inj_on (global_identity m) (fst ` set m)"
proof -
  have dk: "distinct (map fst m)" using assms by (simp add: first_seen_def)
  have "distinct (map (\<lambda>i. Speaker (i + 1)) [0..<length m])"
    by (simp add: distinct_map inj_on_def)
  then have dv: "distinct (map snd m)" using assms by (simp add: first_seen_def)
  show ?thesis
  proof (rule inj_onI)
    fix a b
    assume a: "a \<in> fst ` set m" and b: "b \<in> fst ` set m"
      and e: "global_identity m a = global_identity m b"
    from a obtain ga where ga: "(a, ga) \<in> set m" by auto
    from b obtain gb where gb: "(b, gb) \<in> set m" by auto
    have "map_of m a = Some ga" "map_of m b = Some gb"
      using dk ga gb by simp_all
    then have "ga = gb" using e by (simp add: global_identity_def)
    then show "a = b" using ga gb dv by (metis eq_key_imp_eq_value distinct_map
        fst_conv snd_conv inj_on_def)
  qed
qed

lemma global_identity_append:
  assumes "k \<in> fst ` set m" and "distinct (map fst (m @ ext))"
  shows "global_identity (m @ ext) k = global_identity m k"
proof -
  from assms(1) obtain g where g: "(k, g) \<in> set m" by auto
  have "distinct (map fst m)" using assms(2) by simp
  then have 1: "map_of m k = Some g" using g by simp
  have "(k, g) \<in> set (m @ ext)" using g by simp
  then have "map_of (m @ ext) k = Some g" using assms(2) by (rule map_of_is_SomeI [rotated])
  then show ?thesis using 1 by (simp only: global_identity_def option.case)
qed

lemma related_append:
  assumes "related (global_identity m) a b" and "speaker a \<in> fst ` set m"
    and "distinct (map fst (m @ ext))"
  shows "related (global_identity (m @ ext)) a b"
  using assms global_identity_append [of "speaker a" m ext] by (simp add: related_def)

lemma mapped_append:
  assumes "mapped m xs ys" and "first_seen (m @ ext)"
  shows "mapped (m @ ext) xs ys"
proof -
  have d: "distinct (map fst (m @ ext))" using assms(2) by (simp add: first_seen_def)
  have l: "list_all2 (related (global_identity m)) xs ys" and s: "speaker ` set xs \<subseteq> fst ` set m"
    using assms(1) by (simp_all add: mapped_def)
  have "list_all2 (related (global_identity (m @ ext))) xs ys"
  proof (rule list.rel_mono_strong [OF l])
    fix a b
    assume "a \<in> set xs" "b \<in> set ys" "related (global_identity m) a b"
    then show "related (global_identity (m @ ext)) a b"
      using s d by (intro related_append) auto
  qed
  moreover have "speaker ` set xs \<subseteq> fst ` set (m @ ext)" using s by auto
  ultimately show ?thesis by (simp add: mapped_def)
qed

lemma mapped_Nil: "mapped m [] []"
  by (simp add: mapped_def)

lemma mapped_app:
  "mapped m xs ys \<Longrightarrow> mapped m xs' ys' \<Longrightarrow> mapped m (xs @ xs') (ys @ ys')"
  by (simp add: mapped_def list_all2_appendI image_Un)

lemma adjust_chunk_Cons:
  "adjust_chunk off m (s # ss) =
     (let m1 = (case map_of m (speaker s) of
                  None \<Rightarrow> m @ [(speaker s, Speaker (length m + 1))] | Some g \<Rightarrow> m);
          g = (case map_of m (speaker s) of None \<Rightarrow> Speaker (length m + 1) | Some g \<Rightarrow> g)
      in (s\<lparr>seg_start := seg_start s + off, seg_end := seg_end s + off, speaker := g\<rparr>
            # fst (adjust_chunk off m1 ss),
          snd (adjust_chunk off m1 ss)))"
  by (simp add: Let_def split: option.split prod.split)

declare adjust_chunk.simps(2) [simp del]

lemma adjust_chunk_spec:
  "first_seen m \<Longrightarrow>
     first_seen (snd (adjust_chunk off m ss))
     \<and> (\<exists>ext. snd (adjust_chunk off m ss) = m @ ext)
     \<and> mapped (snd (adjust_chunk off m ss)) (map (shift_seg off) ss) (fst (adjust_chunk off m ss))"
proof (induction ss arbitrary: m)
  case Nil
  then show ?case by (simp add: mapped_Nil)
next
  case (Cons s ss)
  define m1 where "m1 = (case map_of m (speaker s) of
      None \<Rightarrow> m @ [(speaker s, Speaker (length m + 1))] | Some g \<Rightarrow> m)"
  define g where "g = (case map_of m (speaker s) of
      None \<Rightarrow> Speaker (length m + 1) | Some g \<Rightarrow> g)"
  define m2 where "m2 = snd (adjust_chunk off m1 ss)"
  define ss1 where "ss1 = fst (adjust_chunk off m1 ss)"
  define s' where "s' = s\<lparr>seg_start := seg_start s + off, seg_end := seg_end s + off, speaker := g\<rparr>"
  have res: "fst (adjust_chunk off m (s # ss)) = s' # ss1" "snd (adjust_chunk off m (s # ss)) = m2"
    by (simp_all only: adjust_chunk_Cons Let_def fst_conv snd_conv m1_def g_def m2_def ss1_def s'_def)
  have fs1: "first_seen m1"
    using Cons.prems first_seen_snoc [of m "speaker s"]
    by (simp add: m1_def split: option.split)
  have ext1: "\<exists>ext. m1 = m @ ext" by (simp add: m1_def split: option.split)
  have look: "map_of m1 (speaker s) = Some g"
    by (simp add: m1_def g_def map_add_def split: option.split)
  from Cons.IH [OF fs1]
  have fs2: "first_seen m2" and ext2: "\<exists>ext. m2 = m1 @ ext"
    and tl: "mapped m2 (map (shift_seg off) ss) ss1" by (simp_all add: m2_def ss1_def)
  from ext2 obtain e2 where e2: "m2 = m1 @ e2" by blast
  have d2: "distinct (map fst (m1 @ e2))" using fs2 e2 by (simp add: first_seen_def)
  have "(speaker s, g) \<in> set m1" using look by (rule map_of_SomeD)
  then have k1: "speaker s \<in> fst ` set m1" by (rule image_eqI [rotated]) simp
  have "global_identity (m1 @ e2) (speaker s) = global_identity m1 (speaker s)"
    using k1 d2 by (rule global_identity_append)
  then have gi: "global_identity m2 (speaker s) = g"
    using look e2 by (simp add: global_identity_def)
  have k2: "speaker s \<in> fst ` set m2" using k1 e2 by auto
  have hd: "mapped m2 [shift_seg off s] [s']"
    using gi k2 by (simp add: mapped_def related_def s'_def)
  have "mapped m2 ([shift_seg off s] @ map (shift_seg off) ss) ([s'] @ ss1)"
    using hd tl by (rule mapped_app)
  moreover have "\<exists>ext. m2 = m @ ext" using ext1 e2 by auto
  ultimately show ?case unfolding res using fs2 by simp
qed

lemma adjust_chunk_extends: "\<exists>ext. snd (adjust_chunk off m ss) = m @ ext"
proof (induction ss arbitrary: m)
  case Nil
  show ?case by simp
next
  case (Cons s ss)
  define m1 where "m1 = (case map_of m (speaker s) of
      None \<Rightarrow> m @ [(speaker s, Speaker (length m + 1))] | Some g \<Rightarrow> m)"
  have "snd (adjust_chunk off m (s # ss)) = snd (adjust_chunk off m1 ss)"
    by (simp only: adjust_chunk_Cons Let_def snd_conv m1_def)
  moreover have "\<exists>e1. m1 = m @ e1" by (simp add: m1_def split: option.split)
  then obtain e1 where "m1 = m @ e1" by blast
  moreover obtain e2 where "snd (adjust_chunk off m1 ss) = m1 @ e2" using Cons.IH by blast
  ultimately show ?case by simp
qed

lemma chunk_loop_extends:
  "\<exists>ext. snd (chunk_loop pipeline jit len cd i k all_segments m) = m @ ext"
proof (induction k arbitrary: i all_segments m)
  case 0
  show ?case by simp
next
  case (Suc k)
  show ?case
  proof (cases "len \<le> i * cd * 1000")
    case True
    then show ?thesis by simp
  next
    case False
    show ?thesis
    proof (cases "pipeline i")
      case (Inl e)
      then show ?thesis using False Suc.IH [of "Suc i" all_segments m] by simp
    next
      case (Inr turns)
      let ?a = "adjust_chunk (real (i * cd * 1000) / 1000) m
                  (process_diarization_results (jit i) turns)"
      obtain e1 where e1: "snd ?a = m @ e1" using adjust_chunk_extends by blast
      obtain e2 where "snd (chunk_loop pipeline jit len cd (Suc i) k (all_segments @ fst ?a) (snd ?a))
          = snd ?a @ e2" using Suc.IH by blast
      then have "snd (chunk_loop pipeline jit len cd i (Suc k) all_segments m) = snd ?a @ e2"
        using False Inr by (simp add: split_beta)
      then show ?thesis using e1 by simp
    qed
  qed
qed

lemma chunk_loop_spec:
  assumes "\<forall>i. pipeline i = Inr (chunks i)"
  shows "first_seen m \<Longrightarrow>
     first_seen (snd (chunk_loop pipeline jit len cd i k all_segments m))
     \<and> (\<exists>new. fst (chunk_loop pipeline jit len cd i k all_segments m) = all_segments @ new
          \<and> mapped (snd (chunk_loop pipeline jit len cd i k all_segments m))
                (chunk_blocks chunks jit len cd [i..<i + k]) new)"
proof (induction k arbitrary: i all_segments m)
  case 0
  then show ?case by (simp add: chunk_blocks_def mapped_Nil)
next
  case (Suc k)
  show ?case
  proof (cases "len \<le> i * cd * 1000")
    case True
    have "\<forall>j\<in>set [i..<i + Suc k]. \<not> j * cd * 1000 < len"
    proof
      fix j
      assume "j \<in> set [i..<i + Suc k]"
      then have "i \<le> j" by auto
      then have "i * cd * 1000 \<le> j * cd * 1000" by (simp add: mult_le_mono1)
      then show "\<not> j * cd * 1000 < len" using True by linarith
    qed
    then have "filter (\<lambda>j. j * cd * 1000 < len) [i..<i + Suc k] = []"
      by (simp only: filter_empty_conv)
    then have "chunk_blocks chunks jit len cd [i..<i + Suc k] = []"
      by (simp only: chunk_blocks_def list.map concat.simps)
    then show ?thesis using True Suc.prems by (simp add: mapped_Nil)
  next
    case False
    let ?P = "process_diarization_results (jit i) (chunks i)"
    define cs where "cs = fst (adjust_chunk (real (i * cd)) m ?P)"
    define m1 where "m1 = snd (adjust_chunk (real (i * cd)) m ?P)"
    have off: "real (i * cd * 1000) / 1000 = real (i * cd)" by simp
    have p: "pipeline i = Inr (chunks i)" using assms by simp
    have step: "chunk_loop pipeline jit len cd i (Suc k) all_segments m
        = chunk_loop pipeline jit len cd (Suc i) k (all_segments @ cs) m1"
      using False p by (simp add: off cs_def m1_def split: prod.split)
    from adjust_chunk_spec [OF Suc.prems, of "real (i * cd)" ?P]
    have fs1: "first_seen m1" and hd: "mapped m1 (map (shift_seg (real (i * cd))) ?P) cs"
      by (simp_all add: cs_def m1_def)
    define m' where "m' = snd (chunk_loop pipeline jit len cd (Suc i) k (all_segments @ cs) m1)"
    from Suc.IH [OF fs1, of "Suc i" "all_segments @ cs"]
    obtain new where fs': "first_seen m'"
      and new: "fst (chunk_loop pipeline jit len cd (Suc i) k (all_segments @ cs) m1)
          = (all_segments @ cs) @ new"
      and tl: "mapped m' (chunk_blocks chunks jit len cd [Suc i..<Suc i + k]) new"
      unfolding m'_def by blast
    have ext: "\<exists>ext. m' = m1 @ ext"
      unfolding m'_def by (rule chunk_loop_extends)
    then obtain e where e: "m' = m1 @ e" by blast
    have hd': "mapped m' (map (shift_seg (real (i * cd))) ?P) cs"
      unfolding e using hd fs' [unfolded e] by (rule mapped_append)
    have "[i..<i + Suc k] = i # [Suc i..<Suc i + k]" by (simp add: upt_rec)
    then have "chunk_blocks chunks jit len cd [i..<i + Suc k]
        = map (shift_seg (real (i * cd))) ?P @ chunk_blocks chunks jit len cd [Suc i..<Suc i + k]"
      using False by (simp add: chunk_blocks_def)
    then have r: "mapped m' (chunk_blocks chunks jit len cd [i..<i + Suc k]) (cs @ new)"
      using mapped_app [OF hd' tl] by (simp only:)
    have f: "fst (chunk_loop pipeline jit len cd (Suc i) k (all_segments @ cs) m1)
        = all_segments @ (cs @ new)" using new by simp
    show ?thesis unfolding step
    proof (intro conjI exI)
      show "first_seen (snd (chunk_loop pipeline jit len cd (Suc i) k (all_segments @ cs) m1))"
        using fs' by (simp only: m'_def)
      show "fst (chunk_loop pipeline jit len cd (Suc i) k (all_segments @ cs) m1)
          = all_segments @ (cs @ new)" by (rule f)
      show "mapped (snd (chunk_loop pipeline jit len cd (Suc i) k (all_segments @ cs) m1))
          (chunk_blocks chunks jit len cd [i..<i + Suc k]) (cs @ new)"
        using r by (simp only: m'_def)
    qed
  qed
qed

lemma merge_sweep_speakers_sup:
  "speaker ` set (cur # xs) \<subseteq> speaker ` set (merge_sweep c [] cur xs)"
proof (induction xs arbitrary: cur)
  case Nil
  show ?case by simp
next
  case (Cons n ns)
  let ?cur = "cur\<lparr>seg_end := seg_end n, duration := round2 (seg_end n - seg_start cur)\<rparr>"
  show ?case
  proof (cases "mergeable c cur n")
    case True
    then have "speaker n = speaker cur" by (simp add: mergeable_def)
    then have "speaker ` set (cur # n # ns) = speaker ` set (?cur # ns)" by simp
    also have "\<dots> \<subseteq> speaker ` set (merge_sweep c [] ?cur ns)" by (rule Cons.IH)
    finally show ?thesis using True by simp
  next
    case False
    have "speaker ` set (n # ns) \<subseteq> speaker ` set (merge_sweep c [] n ns)" by (rule Cons.IH)
    then have "insert (speaker cur) (speaker ` set (n # ns))
        \<subseteq> insert (speaker cur) (speaker ` set (merge_sweep c [] n ns))" by (rule insert_mono)
    then show ?thesis using False by simp
  qed
qed

lemma merge_pass_speakers_eq: "speaker ` set (merge_pass c xs) = speaker ` set xs"
proof (rule equalityI)
  show "speaker ` set (merge_pass c xs) \<subseteq> speaker ` set xs" by (rule merge_pass_speakers)
  show "speaker ` set xs \<subseteq> speaker ` set (merge_pass c xs)"
  proof (cases "sort_key seg_start xs")
    case Nil
    then have "xs = []" using length_sort [of seg_start xs] by simp
    then show ?thesis by simp
  next
    case (Cons s rest)
    have "set (s # rest) = set xs" using Cons set_sort [of seg_start xs] by simp
    then show ?thesis using Cons merge_sweep_speakers_sup [of s rest c]
      by (simp add: merge_pass_def)
  qed
qed

lemma related_speakers:
  "list_all2 (related \<rho>) xs ys \<Longrightarrow> speaker ` set ys = \<rho> ` speaker ` set xs"
  by (induction xs ys rule: list_all2_induct) (simp_all add: related_def)

lemma related_id_speakers:
  "list_all2 (related (\<lambda>s. s)) xs ys \<Longrightarrow> speaker ` set ys = speaker ` set xs"
  using related_speakers [of "\<lambda>s. s" xs ys] by simp

lemma assign_confidence_related: "list_all2 (related (\<lambda>s. s)) xs (assign_confidence jit k xs)"
  by (induction xs arbitrary: k) (simp_all add: related_def)

lemma map_shift_related:
  "list_all2 (related (\<lambda>s. s)) xs ys \<Longrightarrow>
     list_all2 (related (\<lambda>s. s)) (map (shift_seg off) xs) (map (shift_seg off) ys)"
  by (induction xs ys rule: list_all2_induct) (simp_all add: related_def)

lemma speaker_times_id:
  assumes "list_all2 (related (\<lambda>s. s)) xs ys"
  shows "speaker_times ys s = speaker_times xs s"
proof -
  have "speaker_times ys ((\<lambda>s. s) s) = speaker_times xs s"
    using _ _ assms by (rule speaker_times_related [where S = UNIV]) simp_all
  then show ?thesis by simp
qed

lemma merge_pass_id_related:
  assumes "list_all2 (related (\<lambda>s. s)) xs ys"
  shows "list_all2 (related (\<lambda>s. s)) (merge_pass c xs) (merge_pass c ys)"
  using _ assms by (rule merge_pass_related [where S = UNIV]) simp_all

lemma merged_blocks_raw:
  "merged_blocks chunks cd js = map (merge_pass collar) (raw_blocks chunks cd js)"
proof -
  have "\<And>j. map (shift_seg (real (j * cd))) (merge_pass collar (map raw_segment (chunks j)))
      = merge_pass collar (map raw_segment (map (shift_turn (real (j * cd))) (chunks j)))"
  proof -
    fix j
    have "map raw_segment (map (shift_turn (real (j * cd))) (chunks j))
        = map (shift_seg (real (j * cd))) (map raw_segment (chunks j))"
      by (simp only: list.map_comp comp_def raw_segment_shift)
    then show "map (shift_seg (real (j * cd))) (merge_pass collar (map raw_segment (chunks j)))
      = merge_pass collar (map raw_segment (map (shift_turn (real (j * cd))) (chunks j)))"
      by (simp only: merge_pass_shift)
  qed
  then show ?thesis by (simp add: merged_blocks_def raw_blocks_def)
qed

lemma chunk_blocks_related:
  "list_all2 (related (\<lambda>s. s)) (concat (merged_blocks chunks cd (filter (\<lambda>j. j * cd * 1000 < len) js)))
     (chunk_blocks chunks jit len cd js)"
proof (induction js)
  case Nil
  show ?case by (simp add: merged_blocks_def chunk_blocks_def)
next
  case (Cons j js)
  have b: "list_all2 (related (\<lambda>s. s))
      (map (shift_seg (real (j * cd))) (merge_pass collar (map raw_segment (chunks j))))
      (map (shift_seg (real (j * cd))) (process_diarization_results (jit j) (chunks j)))"
    unfolding process_diarization_results_def
    by (rule map_shift_related) (rule assign_confidence_related)
  show ?case
  proof (cases "j * cd * 1000 < len")
    case True
    have "list_all2 (related (\<lambda>s. s))
        (map (shift_seg (real (j * cd))) (merge_pass collar (map raw_segment (chunks j)))
           @ concat (merged_blocks chunks cd (filter (\<lambda>j. j * cd * 1000 < len) js)))
        (map (shift_seg (real (j * cd))) (process_diarization_results (jit j) (chunks j))
           @ chunk_blocks chunks jit len cd js)"
      using b Cons.IH by (rule list_all2_appendI)
    then show ?thesis using True by (simp add: merged_blocks_def chunk_blocks_def)
  next
    case False
    then show ?thesis using Cons.IH by (simp add: merged_blocks_def chunk_blocks_def)
  qed
qed

lemma raw_block_bounds:
  assumes "\<forall>t\<in>set (chunks j). 0 \<le> round2 (turn_start t) \<and> round2 (turn_start t) \<le> real cd"
    and "x \<in> set (map raw_segment (map (shift_turn (real (j * cd))) (chunks j)))"
  shows "real (j * cd) \<le> seg_start x \<and> seg_start x \<le> real (Suc j * cd)"
proof -
  from assms(2) obtain t where t: "t \<in> set (chunks j)"
    "x = raw_segment (shift_turn (real (j * cd)) t)" by auto
  have "seg_start x = seg_start (raw_segment t) + real (j * cd)"
    by (simp only: t(2) raw_segment_shift shift_seg_simps)
  moreover have "seg_start (raw_segment t) = round2 (turn_start t)"
    by (simp add: raw_segment_def)
  moreover have "0 \<le> round2 (turn_start t)" "round2 (turn_start t) \<le> real cd"
    using assms(1) t(1) by simp_all
  ultimately show ?thesis by (simp add: algebra_simps)
qed

lemma raw_blocks_ordered:
  assumes "\<forall>i. \<forall>t\<in>set (chunks i). 0 \<le> round2 (turn_start t) \<and> round2 (turn_start t) \<le> real cd"
  shows "sorted_wrt (<) js \<Longrightarrow> blocks_ordered (raw_blocks chunks cd js)"
proof (induction js)
  case Nil
  show ?case by (simp add: raw_blocks_def)
next
  case (Cons j js)
  from Cons.prems have lt: "\<forall>j'\<in>set js. j < j'" and rest: "sorted_wrt (<) js" by simp_all
  have tl: "blocks_ordered (raw_blocks chunks cd js)" using Cons.IH [OF rest] .
  have "\<forall>x\<in>set (map raw_segment (map (shift_turn (real (j * cd))) (chunks j))).
      \<forall>y\<in>set (concat (raw_blocks chunks cd js)). seg_start x \<le> seg_start y"
  proof (intro ballI)
    fix x y
    assume x: "x \<in> set (map raw_segment (map (shift_turn (real (j * cd))) (chunks j)))"
      and y: "y \<in> set (concat (raw_blocks chunks cd js))"
    from y obtain j' where j': "j' \<in> set js"
      "y \<in> set (map raw_segment (map (shift_turn (real (j' * cd))) (chunks j')))"
      by (auto simp add: raw_blocks_def)
    have c: "\<forall>t\<in>set (chunks j). 0 \<le> round2 (turn_start t) \<and> round2 (turn_start t) \<le> real cd"
      "\<forall>t\<in>set (chunks j'). 0 \<le> round2 (turn_start t) \<and> round2 (turn_start t) \<le> real cd"
      using assms by simp_all
    have 1: "seg_start x \<le> real (Suc j * cd)" using raw_block_bounds [of chunks j cd x] c(1) x by simp
    have 2: "real (j' * cd) \<le> seg_start y" using raw_block_bounds [of chunks j' cd y] c(2) j'(2) by simp
    have "Suc j \<le> j'" using lt j'(1) by auto
    then have "Suc j * cd \<le> j' * cd" by (rule mult_le_mono1)
    then have "real (Suc j * cd) \<le> real (j' * cd)" by (simp only: of_nat_le_iff)
    then show "seg_start x \<le> seg_start y" using 1 2 by linarith
  qed
  then show ?case using tl by (simp add: raw_blocks_def)
qed

lemma concat_raw_blocks:
  "concat (raw_blocks chunks cd (processed_chunks len cd))
     = map raw_segment (whole_recording chunks len cd)"
  by (simp add: raw_blocks_def whole_recording_def map_concat comp_def)

lemma processed_chunks_sorted: "sorted_wrt (<) (processed_chunks len cd)"
  unfolding processed_chunks_def by (rule sorted_wrt_filter) (rule sorted_wrt_upt)

lemma related_id_trans:
  "list_all2 (related (\<lambda>s. s)) xs ys \<Longrightarrow> list_all2 (related \<rho>) ys zs \<Longrightarrow>
     list_all2 (related \<rho>) xs zs"
proof (induction xs ys arbitrary: zs rule: list_all2_induct)
  case Nil
  then show ?case by simp
next
  case (Cons x xs y ys)
  from Cons.prems obtain z zs' where z: "zs = z # zs'" "related \<rho> y z"
    "list_all2 (related \<rho>) ys zs'" by (auto simp add: list_all2_Cons1)
  have "related \<rho> x z" using Cons.hyps(1) z(2) by (simp add: related_def)
  then show ?case using z(1) Cons.IH [OF z(3)] by simp
qed

lemma chunked_unmerged:
  assumes "\<forall>i. pipeline i = Inr (chunks i)"
  shows "first_seen (snd (chunked_segments pipeline jit len cd))
     \<and> mapped (snd (chunked_segments pipeline jit len cd))
         (chunk_blocks chunks jit len cd [0..<chunk_count len cd])
         (fst (chunked_segments pipeline jit len cd))"
  using chunk_loop_spec [OF assms first_seen_Nil, of jit len cd 0 "chunk_count len cd" "[]"]
  by (auto simp add: chunked_segments_def)

lemma merged_blocks_whole:
  assumes "\<forall>i. \<forall>t\<in>set (chunks i). 0 \<le> round2 (turn_start t) \<and> round2 (turn_start t) \<le> real cd"
  shows "merge_pass collar (concat (merged_blocks chunks cd (processed_chunks len cd)))
     = merge_pass collar (map raw_segment (whole_recording chunks len cd))"
proof -
  have "blocks_ordered (raw_blocks chunks cd (processed_chunks len cd))"
    using assms processed_chunks_sorted by (rule raw_blocks_ordered)
  then have "merge_pass collar (concat (map (merge_pass collar)
        (raw_blocks chunks cd (processed_chunks len cd))))
      = merge_pass collar (concat (raw_blocks chunks cd (processed_chunks len cd)))"
    by (rule merge_pass_blocks)
  then show ?thesis by (simp only: merged_blocks_raw concat_raw_blocks)
qed

lemma chunked_related:
  assumes "\<forall>i. pipeline i = Inr (chunks i)"
    and "\<forall>i. \<forall>t\<in>set (chunks i). 0 \<le> round2 (turn_start t) \<and> round2 (turn_start t) \<le> real cd"
  shows "\<exists>mid. list_all2 (related (\<lambda>s. s)) mid
                 (process_diarization_results jit' (whole_recording chunks len cd))
     \<and> list_all2 (related (global_identity (snd (chunked_segments pipeline jit len cd)))) mid
         (process_in_chunks pipeline jit len cd)
     \<and> speaker ` set mid \<subseteq> fst ` set (snd (chunked_segments pipeline jit len cd))
     \<and> inj_on (global_identity (snd (chunked_segments pipeline jit len cd)))
         (fst ` set (snd (chunked_segments pipeline jit len cd)))"
proof -
  define m' where "m' = snd (chunked_segments pipeline jit len cd)"
  define B where "B = chunk_blocks chunks jit len cd [0..<chunk_count len cd]"
  define B0 where "B0 = concat (merged_blocks chunks cd (processed_chunks len cd))"
  define U' where "U' = merge_pass collar (map raw_segment (whole_recording chunks len cd))"
  have fs: "first_seen m'" and mp: "mapped m' B (fst (chunked_segments pipeline jit len cd))"
    using chunked_unmerged [OF assms(1), of jit len cd] by (simp_all add: m'_def B_def)
  have inj: "inj_on (global_identity m') (fst ` set m')" using fs by (rule first_seen_inj)
  have rel: "list_all2 (related (global_identity m')) B (fst (chunked_segments pipeline jit len cd))"
    and sub: "speaker ` set B \<subseteq> fst ` set m'" using mp by (simp_all add: mapped_def)
  have c: "list_all2 (related (global_identity m')) (merge_pass collar B)
      (process_in_chunks pipeline jit len cd)"
    unfolding process_in_chunks_def using inj rel sub by (rule merge_pass_related)
  have "list_all2 (related (\<lambda>s. s)) B0 B"
    unfolding B0_def B_def processed_chunks_def by (rule chunk_blocks_related)
  then have "list_all2 (related (\<lambda>s. s)) (merge_pass collar B0) (merge_pass collar B)"
    by (rule merge_pass_id_related)
  moreover have w: "merge_pass collar B0 = U'"
    unfolding B0_def U'_def using assms(2) by (rule merged_blocks_whole)
  ultimately have u: "list_all2 (related (\<lambda>s. s)) U' (merge_pass collar B)" by (simp only:)
  have u': "list_all2 (related (\<lambda>s. s)) U'
      (process_diarization_results jit' (whole_recording chunks len cd))"
    unfolding process_diarization_results_def U'_def by (rule assign_confidence_related)
  have sp: "speaker ` set (merge_pass collar B) = speaker ` set B"
    by (rule merge_pass_speakers_eq)
  have "speaker ` set (merge_pass collar B) = speaker ` set U'"
    using u by (rule related_id_speakers)
  then have s1: "speaker ` set U' \<subseteq> fst ` set m'" using sp sub by (simp only:)
  have t1: "list_all2 (related (global_identity m')) U' (process_in_chunks pipeline jit len cd)"
    using u c by (rule related_id_trans)
  show ?thesis
    unfolding m'_def [symmetric]
    using u' t1 s1 inj by (intro exI [of _ U'] conjI)
qed

lemma round2_whole_seconds:
  "round2 0 = 0" "round2 5 = 5" "round2 40 = 40" "round2 50 = 50" "round2 10 = 10"
  "round2 100 = 100" "round2 110 = 110"
  by (simp_all add: round2_def py_round_def Let_def)

lemma swapped_confidences:
  "segment_confidence 5 0 = 6 / 10" "segment_confidence 10 0 = 9 / 10"
  by (simp_all add: segment_confidence_def base_confidence_def round2_def py_round_def Let_def)

lemma swapped_chunk_results:
  "process_diarization_results (\<lambda>j. 0) (swapped_chunks 0) =
     [\<lparr>seg_start = 0, seg_end = 5, speaker = Speaker 2, duration = 5, confidence = Some (6 / 10)\<rparr>]"
  "process_diarization_results (\<lambda>j. 0) (swapped_chunks (Suc 0)) =
     [\<lparr>seg_start = 40, seg_end = 50, speaker = Speaker 1, duration = 10, confidence = Some (9 / 10)\<rparr>]"
  by (simp_all add: process_diarization_results_def swapped_chunks_def raw_segment_def
      merge_pass_def round2_whole_seconds swapped_confidences)

lemma swapped_chunked:
  "chunked_segments (\<lambda>i. Inr (swapped_chunks i)) (\<lambda>i j. 0) 120000 60 =
     ([\<lparr>seg_start = 0, seg_end = 5, speaker = Speaker 1, duration = 5, confidence = Some (6 / 10)\<rparr>,
       \<lparr>seg_start = 100, seg_end = 110, speaker = Speaker 2, duration = 10,
          confidence = Some (9 / 10)\<rparr>],
      [(Speaker 2, Speaker 1), (Speaker 1, Speaker 2)])"
proof -
  have cc: "chunk_count 120000 60 = Suc (Suc (Suc 0))" by (simp add: chunk_count_def)
  show ?thesis by (simp add: chunked_segments_def cc swapped_chunk_results adjust_chunk_Cons)
qed

lemma swapped_chunked_result:
  "process_in_chunks (\<lambda>i. Inr (swapped_chunks i)) (\<lambda>i j. 0) 120000 60 =
     [\<lparr>seg_start = 0, seg_end = 5, speaker = Speaker 1, duration = 5, confidence = Some (6 / 10)\<rparr>,
      \<lparr>seg_start = 100, seg_end = 110, speaker = Speaker 2, duration = 10,
         confidence = Some (9 / 10)\<rparr>]"
  by (simp add: process_in_chunks_def swapped_chunked merge_pass_def mergeable_def)

lemma swapped_unchunked_result:
  "process_diarization_results (\<lambda>i. 0) swapped_recording =
     [\<lparr>seg_start = 0, seg_end = 5, speaker = Speaker 2, duration = 5, confidence = Some (6 / 10)\<rparr>,
      \<lparr>seg_start = 100, seg_end = 110, speaker = Speaker 1, duration = 10,
         confidence = Some (9 / 10)\<rparr>]"
  by (simp add: process_diarization_results_def swapped_recording_def raw_segment_def
      merge_pass_def mergeable_def round2_whole_seconds swapped_confidences)

lemma swapped_whole: "whole_recording swapped_chunks 120000 60 = swapped_recording"
proof -
  have cc: "chunk_count 120000 60 = Suc (Suc (Suc 0))" by (simp add: chunk_count_def)
  have "[0..<Suc (Suc (Suc 0))] = [0, Suc 0, Suc (Suc 0)]" by (simp add: upt_rec)
  then have "processed_chunks 120000 60 = [0, Suc 0]" by (simp add: processed_chunks_def cc)
  then show ?thesis
    by (simp add: whole_recording_def swapped_chunks_def swapped_recording_def shift_turn_def)
qed

lemma swapped_within_chunk:
  "\<forall>i. \<forall>t\<in>set (swapped_chunks i). 0 \<le> round2 (turn_start t) \<and> round2 (turn_start t) \<le> real 60"
  by (simp add: swapped_chunks_def round2_whole_seconds)




end
